theory Spec2Isabelle
  imports Complex_Main "HOL-Library.Sublist"
begin

section \<open>LRU and TTL caches of \<open>src/cache.py\<close>\<close>

text \<open>
  The module defines two mutable mappings. \<open>LRUCache\<close> keeps an \<open>OrderedDict\<close> from keys
  to pairs (value, timestamp) and a capacity \<open>max_size\<close>; \<open>TTLCache\<close> keeps a \<open>dict\<close> of
  the same shape and a time to live \<open>_ttl\<close>.

  Conventions of the embedding:
  \<^item> a Python \<open>dict\<close> or \<open>OrderedDict\<close> is an association list in insertion order (both
    iterate in insertion order); the first pair is the oldest position, the last pair the
    newest. A list stands for a dictionary when its keys are distinct;
  \<^item> every call is a function from the state (and the arguments) to the outcome of the
    call and the state it leaves: the outcome is \<open>Inl KeyError\<close> when the call raises and
    \<open>Inr\<close> of the returned value otherwise;
  \<^item> \<open>time.time()\<close> is an input: a call that reads the clock takes the reading as its
    argument \<open>now\<close> (no method reads the clock more than once). Readings, timestamps and the
    time to live are real numbers, and \<open>-\<close>, \<open>\<le>\<close>, \<open>>\<close> on them are those of the reals;
  \<open>max_size\<close> is a Python \<open>int\<close>.
\<close>

subsection \<open>Dictionaries\<close>

datatype py_error = KeyError

type_synonym ('k, 'e) pydict = "('k \<times> 'e) list"

text \<open>\<open>key in d\<close>\<close>
definition dict_contains :: "'k \<Rightarrow> ('k, 'e) pydict \<Rightarrow> bool" where
  "dict_contains k d = (map_of d k \<noteq> None)"

text \<open>The dictionary without the entry of \<open>k\<close> (the other entries keep their order).\<close>
definition dict_delete :: "'k \<Rightarrow> ('k, 'e) pydict \<Rightarrow> ('k, 'e) pydict" where
  "dict_delete k d = filter (\<lambda>p. fst p \<noteq> k) d"

text \<open>\<open>d[k] = e\<close>: an existing key keeps its position, a new key goes to the end.\<close>
fun dict_store :: "'k \<Rightarrow> 'e \<Rightarrow> ('k, 'e) pydict \<Rightarrow> ('k, 'e) pydict" where
  "dict_store k e [] = [(k, e)]"
| "dict_store k e (p # ps) = (if fst p = k then (k, e) # ps else p # dict_store k e ps)"

text \<open>\<open>d[k]\<close>\<close>
definition dict_getitem :: "'k \<Rightarrow> ('k, 'e) pydict \<Rightarrow> py_error + 'e" where
  "dict_getitem k d = (case map_of d k of None \<Rightarrow> Inl KeyError | Some e \<Rightarrow> Inr e)"

text \<open>\<open>del d[k]\<close>\<close>
definition dict_delitem :: "'k \<Rightarrow> ('k, 'e) pydict \<Rightarrow> py_error + ('k, 'e) pydict" where
  "dict_delitem k d = (if dict_contains k d then Inr (dict_delete k d) else Inl KeyError)"

text \<open>\<open>d.pop(k)\<close> without a default\<close>
definition dict_pop :: "'k \<Rightarrow> ('k, 'e) pydict \<Rightarrow> py_error + ('e \<times> ('k, 'e) pydict)" where
  "dict_pop k d = (case map_of d k of None \<Rightarrow> Inl KeyError | Some e \<Rightarrow> Inr (e, dict_delete k d))"

text \<open>\<open>OrderedDict.move_to_end(k)\<close>\<close>
definition od_move_to_end :: "'k \<Rightarrow> ('k, 'e) pydict \<Rightarrow> py_error + ('k, 'e) pydict" where
  "od_move_to_end k d =
     (case map_of d k of None \<Rightarrow> Inl KeyError | Some e \<Rightarrow> Inr (dict_delete k d @ [(k, e)]))"

text \<open>\<open>OrderedDict.popitem(last=False)\<close>: raises \<open>KeyError\<close> on an empty dictionary.\<close>
definition od_popitem_first :: "('k, 'e) pydict \<Rightarrow> py_error + (('k \<times> 'e) \<times> ('k, 'e) pydict)" where
  "od_popitem_first d = (case d of [] \<Rightarrow> Inl KeyError | p # ps \<Rightarrow> Inr (p, ps))"

text \<open>\<open>sep.join(xs)\<close>\<close>
fun join :: "string \<Rightarrow> string list \<Rightarrow> string" where
  "join sep [] = []"
| "join sep [x] = x"
| "join sep (x # y # ys) = x @ sep @ join sep (y # ys)"

text \<open>
  The text both \<open>__repr__\<close> methods build after the class name; \<open>repr_k\<close> and \<open>repr_v\<close>
  are \<open>repr\<close> on keys and on values.
\<close>
definition repr_items :: "('k \<Rightarrow> string) \<Rightarrow> ('v \<Rightarrow> string) \<Rightarrow> ('k, 'v \<times> real) pydict \<Rightarrow> string" where
  "repr_items repr_k repr_v d =
     ''({ '' @ join '', '' (map (\<lambda>(k, v). repr_k k @ '': '' @ repr_v (fst v)) d) @ '' })''"

subsection \<open>LRUCache\<close>

record ('k, 'v) LRUCache =
  max_size :: int
  data :: "('k, 'v \<times> real) pydict"

text \<open>\<open>LRUCache.__init__\<close>: two assignments, no check of \<open>max_size\<close>.\<close>
definition LRUCache_init :: "int \<Rightarrow> py_error + ('k, 'v) LRUCache" where
  "LRUCache_init n = Inr \<lparr>max_size = n, data = []\<rparr>"

text \<open>\<open>LRUCache.__setitem__\<close>\<close>
definition LRUCache_setitem ::
  "('k, 'v) LRUCache \<Rightarrow> 'k \<Rightarrow> 'v \<Rightarrow> real \<Rightarrow> (py_error + unit) \<times> ('k, 'v) LRUCache" where
  "LRUCache_setitem c key val now =
     (if dict_contains key (data c) then
        (case od_move_to_end key (data c) of
           Inl e \<Rightarrow> (Inl e, c)
         | Inr d \<Rightarrow> (Inr (), c\<lparr>data := dict_store key (val, now) d\<rparr>))
      else if int (length (data c)) \<ge> max_size c then
        (case od_popitem_first (data c) of
           Inl e \<Rightarrow> (Inl e, c)
         | Inr (_, d) \<Rightarrow> (Inr (), c\<lparr>data := dict_store key (val, now) d\<rparr>))
      else (Inr (), c\<lparr>data := dict_store key (val, now) (data c)\<rparr>))"

text \<open>
  \<open>LRUCache.__getitem__\<close>: the entry is popped and stored again through \<open>__setitem__\<close>,
  which reads the clock; the popped timestamp is dropped.
\<close>
definition LRUCache_getitem ::
  "('k, 'v) LRUCache \<Rightarrow> 'k \<Rightarrow> real \<Rightarrow> (py_error + 'v) \<times> ('k, 'v) LRUCache" where
  "LRUCache_getitem c key now =
     (if dict_contains key (data c) then
        (case dict_pop key (data c) of
           Inl e \<Rightarrow> (Inl e, c)
         | Inr ((val, _), d) \<Rightarrow>
             (case LRUCache_setitem (c\<lparr>data := d\<rparr>) key val now of
                (Inl e, c') \<Rightarrow> (Inl e, c')
              | (Inr _, c') \<Rightarrow> (Inr val, c')))
      else (Inl KeyError, c))"

text \<open>\<open>LRUCache.get\<close>: the default \<open>dflt\<close> and the result are \<open>_V | None\<close>.\<close>
definition LRUCache_get ::
  "('k, 'v) LRUCache \<Rightarrow> 'k \<Rightarrow> 'v option \<Rightarrow> real \<Rightarrow> (py_error + 'v option) \<times> ('k, 'v) LRUCache" where
  "LRUCache_get c key dflt now =
     (case LRUCache_getitem c key now of
        (Inl KeyError, c') \<Rightarrow> (Inr dflt, c')
      | (Inr val, c') \<Rightarrow> (Inr (Some val), c'))"

text \<open>\<open>LRUCache.__delitem__\<close>\<close>
definition LRUCache_delitem ::
  "('k, 'v) LRUCache \<Rightarrow> 'k \<Rightarrow> (py_error + unit) \<times> ('k, 'v) LRUCache" where
  "LRUCache_delitem c key =
     (if dict_contains key (data c) then
        (case dict_delitem key (data c) of
           Inl e \<Rightarrow> (Inl e, c)
         | Inr d \<Rightarrow> (Inr (), c\<lparr>data := d\<rparr>))
      else (Inl KeyError, c))"

text \<open>\<open>LRUCache.__contains__\<close>, \<open>__len__\<close>, \<open>__iter__\<close> and \<open>__repr__\<close> leave the state as it is.\<close>
definition LRUCache_contains :: "('k, 'v) LRUCache \<Rightarrow> 'k \<Rightarrow> bool" where
  "LRUCache_contains c key = dict_contains key (data c)"

definition LRUCache_len :: "('k, 'v) LRUCache \<Rightarrow> int" where
  "LRUCache_len c = int (length (data c))"

definition LRUCache_iter :: "('k, 'v) LRUCache \<Rightarrow> 'k list" where
  "LRUCache_iter c = map fst (data c)"

definition LRUCache_repr :: "('k \<Rightarrow> string) \<Rightarrow> ('v \<Rightarrow> string) \<Rightarrow> ('k, 'v) LRUCache \<Rightarrow> string" where
  "LRUCache_repr repr_k repr_v c = ''LRUCache'' @ repr_items repr_k repr_v (data c)"

text \<open>
  The calls that can change an \<open>LRUCache\<close>, and what they return. \<open>lru_step\<close> runs one
  call with the clock reading \<open>now\<close> (\<open>__delitem__\<close> does not read the clock).
\<close>
datatype ('k, 'v) lru_op = Set 'k 'v | GetItem 'k | Get 'k "'v option" | Del 'k

datatype 'v py_value = PyNone | PyVal 'v | PyOpt "'v option"

definition returning :: "('a \<Rightarrow> 'b) \<Rightarrow> (py_error + 'a) \<times> 's \<Rightarrow> (py_error + 'b) \<times> 's" where
  "returning f r = (case r of (Inl e, s) \<Rightarrow> (Inl e, s) | (Inr a, s) \<Rightarrow> (Inr (f a), s))"

fun lru_step ::
  "('k, 'v) LRUCache \<Rightarrow> ('k, 'v) lru_op \<times> real \<Rightarrow> (py_error + 'v py_value) \<times> ('k, 'v) LRUCache" where
  "lru_step c (Set k v, now) = returning (\<lambda>_. PyNone) (LRUCache_setitem c k v now)"
| "lru_step c (GetItem k, now) = returning PyVal (LRUCache_getitem c k now)"
| "lru_step c (Get k d, now) = returning PyOpt (LRUCache_get c k d now)"
| "lru_step c (Del k, now) = returning (\<lambda>_. PyNone) (LRUCache_delitem c k)"

text \<open>
  A sequence of calls, each with its clock reading: the outcomes in order, and the final
  state. A call that raises leaves the state its method left and the sequence goes on (the
  caller caught the exception).
\<close>
fun lru_run ::
  "('k, 'v) LRUCache \<Rightarrow> (('k, 'v) lru_op \<times> real) list \<Rightarrow>
     (py_error + 'v py_value) list \<times> ('k, 'v) LRUCache" where
  "lru_run c [] = ([], c)"
| "lru_run c (x # xs) =
     (case lru_step c x of (r, c') \<Rightarrow>
        (case lru_run c' xs of (rs, c'') \<Rightarrow> (r # rs, c'')))"

subsection \<open>TTLCache\<close>

record ('k, 'v) TTLCache =
  ttl :: real
  tdata :: "('k, 'v \<times> real) pydict"

text \<open>\<open>TTLCache.__init__\<close>: two assignments, no check of \<open>ttl\<close>.\<close>
definition TTLCache_init :: "real \<Rightarrow> py_error + ('k, 'v) TTLCache" where
  "TTLCache_init t = Inr \<lparr>ttl = t, tdata = []\<rparr>"

text \<open>\<open>TTLCache.__setitem__\<close>\<close>
definition TTLCache_setitem ::
  "('k, 'v) TTLCache \<Rightarrow> 'k \<Rightarrow> 'v \<Rightarrow> real \<Rightarrow> (py_error + unit) \<times> ('k, 'v) TTLCache" where
  "TTLCache_setitem c key val now = (Inr (), c\<lparr>tdata := dict_store key (val, now) (tdata c)\<rparr>)"

text \<open>\<open>TTLCache.__getitem__\<close>\<close>
definition TTLCache_getitem ::
  "('k, 'v) TTLCache \<Rightarrow> 'k \<Rightarrow> real \<Rightarrow> (py_error + 'v) \<times> ('k, 'v) TTLCache" where
  "TTLCache_getitem c key now =
     (if dict_contains key (tdata c) then
        (case dict_getitem key (tdata c) of
           Inl e \<Rightarrow> (Inl e, c)
         | Inr (val, timestamp) \<Rightarrow>
             if now - timestamp \<le> ttl c then (Inr val, c)
             else (case dict_delitem key (tdata c) of
                     Inl e \<Rightarrow> (Inl e, c)
                   | Inr d \<Rightarrow> (Inl KeyError, c\<lparr>tdata := d\<rparr>)))
      else (Inl KeyError, c))"

text \<open>\<open>TTLCache.get\<close>\<close>
definition TTLCache_get ::
  "('k, 'v) TTLCache \<Rightarrow> 'k \<Rightarrow> 'v option \<Rightarrow> real \<Rightarrow> (py_error + 'v option) \<times> ('k, 'v) TTLCache" where
  "TTLCache_get c key dflt now =
     (case TTLCache_getitem c key now of
        (Inl KeyError, c') \<Rightarrow> (Inr dflt, c')
      | (Inr val, c') \<Rightarrow> (Inr (Some val), c'))"

text \<open>\<open>TTLCache.__delitem__\<close>\<close>
definition TTLCache_delitem ::
  "('k, 'v) TTLCache \<Rightarrow> 'k \<Rightarrow> (py_error + unit) \<times> ('k, 'v) TTLCache" where
  "TTLCache_delitem c key =
     (if dict_contains key (tdata c) then
        (case dict_delitem key (tdata c) of
           Inl e \<Rightarrow> (Inl e, c)
         | Inr d \<Rightarrow> (Inr (), c\<lparr>tdata := d\<rparr>))
      else (Inl KeyError, c))"

text \<open>\<open>TTLCache.__contains__\<close>\<close>
definition TTLCache_contains ::
  "('k, 'v) TTLCache \<Rightarrow> 'k \<Rightarrow> real \<Rightarrow> (py_error + bool) \<times> ('k, 'v) TTLCache" where
  "TTLCache_contains c key now =
     (if dict_contains key (tdata c) then
        (case dict_getitem key (tdata c) of
           Inl e \<Rightarrow> (Inl e, c)
         | Inr (_, timestamp) \<Rightarrow>
             if now - timestamp \<le> ttl c then (Inr True, c)
             else (case dict_delitem key (tdata c) of
                     Inl e \<Rightarrow> (Inl e, c)
                   | Inr d \<Rightarrow> (Inr False, c\<lparr>tdata := d\<rparr>)))
      else (Inr False, c))"

text \<open>The loop \<open>for k in keys_to_remove: del self._data[k]\<close>.\<close>
fun delete_keys :: "'k list \<Rightarrow> ('k, 'e) pydict \<Rightarrow> (py_error + unit) \<times> ('k, 'e) pydict" where
  "delete_keys [] d = (Inr (), d)"
| "delete_keys (k # ks) d =
     (case dict_delitem k d of Inl e \<Rightarrow> (Inl e, d) | Inr d' \<Rightarrow> delete_keys ks d')"

text \<open>\<open>TTLCache._expire_all\<close>: the clock is read once, before the keys are collected.\<close>
definition TTLCache_expire_all ::
  "('k, 'v) TTLCache \<Rightarrow> real \<Rightarrow> (py_error + unit) \<times> ('k, 'v) TTLCache" where
  "TTLCache_expire_all c now =
     (let keys_to_remove = map fst (filter (\<lambda>(k, (_, ts)). now - ts > ttl c) (tdata c))
      in case delete_keys keys_to_remove (tdata c) of (r, d) \<Rightarrow> (r, c\<lparr>tdata := d\<rparr>))"

text \<open>\<open>TTLCache.__len__\<close>, \<open>__iter__\<close> and \<open>__repr__\<close>: each sweeps first.\<close>
definition TTLCache_len ::
  "('k, 'v) TTLCache \<Rightarrow> real \<Rightarrow> (py_error + int) \<times> ('k, 'v) TTLCache" where
  "TTLCache_len c now =
     (case TTLCache_expire_all c now of
        (Inl e, c') \<Rightarrow> (Inl e, c')
      | (Inr _, c') \<Rightarrow> (Inr (int (length (tdata c'))), c'))"

definition TTLCache_iter ::
  "('k, 'v) TTLCache \<Rightarrow> real \<Rightarrow> (py_error + 'k list) \<times> ('k, 'v) TTLCache" where
  "TTLCache_iter c now =
     (case TTLCache_expire_all c now of
        (Inl e, c') \<Rightarrow> (Inl e, c')
      | (Inr _, c') \<Rightarrow> (Inr (map fst (tdata c')), c'))"

definition TTLCache_repr ::
  "('k \<Rightarrow> string) \<Rightarrow> ('v \<Rightarrow> string) \<Rightarrow> ('k, 'v) TTLCache \<Rightarrow> real \<Rightarrow>
     (py_error + string) \<times> ('k, 'v) TTLCache" where
  "TTLCache_repr repr_k repr_v c now =
     (case TTLCache_expire_all c now of
        (Inl e, c') \<Rightarrow> (Inl e, c')
      | (Inr _, c') \<Rightarrow> (Inr (''TTLCache'' @ repr_items repr_k repr_v (tdata c')), c'))"

subsection \<open>Notions the properties are stated in\<close>

text \<open>A list stands for a dictionary when no key occurs twice.\<close>
definition dict_wf :: "('k, 'e) pydict \<Rightarrow> bool" where
  "dict_wf d = distinct (map fst d)"

text \<open>
  The keys in use, least recently touched first: touching a key moves it to the end. A
  \<open>set\<close> touches its key, a \<open>get\<close> touches the key when it finds it, and a \<open>delete\<close> that
  finds its key takes it out.
\<close>
definition touch :: "'k \<Rightarrow> 'k list \<Rightarrow> 'k list" where
  "touch k r = removeAll k r @ [k]"

fun recency_step :: "('k, 'v) LRUCache \<Rightarrow> 'k list \<Rightarrow> ('k, 'v) lru_op \<Rightarrow> 'k list" where
  "recency_step c r (Set k v) = touch k r"
| "recency_step c r (GetItem k) = (if LRUCache_contains c k then touch k r else r)"
| "recency_step c r (Get k d) = (if LRUCache_contains c k then touch k r else r)"
| "recency_step c r (Del k) = (if LRUCache_contains c k then removeAll k r else r)"

fun recently_touched ::
  "('k, 'v) LRUCache \<Rightarrow> 'k list \<Rightarrow> (('k, 'v) lru_op \<times> real) list \<Rightarrow> 'k list" where
  "recently_touched c r [] = r"
| "recently_touched c r (x # xs) =
     recently_touched (snd (lru_step c x)) (recency_step c r (fst x)) xs"

text \<open>The last \<open>n\<close> elements of a list (all of it when it is shorter).\<close>
definition lastn :: "nat \<Rightarrow> 'a list \<Rightarrow> 'a list" where
  "lastn n xs = drop (length xs - n) xs"

fun is_delete :: "('k, 'v) lru_op \<Rightarrow> bool" where
  "is_delete (Del k) = True"
| "is_delete _ = False"

text \<open>What an \<open>LRUCache\<close> holds apart from the timestamps.\<close>
definition untimed :: "('k, 'v \<times> real) pydict \<Rightarrow> ('k \<times> 'v) list" where
  "untimed d = map (\<lambda>(k, v, t). (k, v)) d"

text \<open>An entry of a \<open>TTLCache\<close> is fresh at \<open>now\<close> when \<open>now - timestamp \<le> ttl\<close>.\<close>
definition fresh :: "real \<Rightarrow> real \<Rightarrow> 'k \<times> 'v \<times> real \<Rightarrow> bool" where
  "fresh t now p = (now - snd (snd p) \<le> t)"

text \<open>
  What holds of a cache of capacity \<open>n\<close> and the list \<open>r\<close> of the keys in use, after every
  call: the keys are distinct, there are at most \<open>n\<close> entries, and the keys of the cache are
  the end of \<open>r\<close>, in the same order.
\<close>
definition lru_track :: "int \<Rightarrow> ('k, 'v) LRUCache \<Rightarrow> 'k list \<Rightarrow> bool" where
  "lru_track n c r \<longleftrightarrow> max_size c = n \<and> dict_wf (data c) \<and> distinct r \<and>
     int (length (data c)) \<le> n \<and> suffix (map fst (data c)) r"

text \<open>As long as nothing was deleted the cache holds as many keys of \<open>r\<close> as fit.\<close>
definition lru_filled :: "int \<Rightarrow> ('k, 'v) LRUCache \<Rightarrow> 'k list \<Rightarrow> bool" where
  "lru_filled n c r \<longleftrightarrow> length (data c) = min (nat n) (length r)"

section \<open>Dictionary lemmas\<close>

lemma dict_contains_keys: "dict_contains k d \<longleftrightarrow> k \<in> set (map fst d)"
  by (simp add: dict_contains_def map_of_eq_None_iff)

lemma keys_dict_delete: "map fst (dict_delete k d) = removeAll k (map fst d)"
  by (induction d) (auto simp: dict_delete_def)

lemma map_of_dict_delete: "map_of (dict_delete k d) k' = (if k' = k then None else map_of d k')"
  by (induction d) (auto simp: dict_delete_def)

lemma dict_store_absent: "k \<notin> set (map fst d) \<Longrightarrow> dict_store k e d = d @ [(k, e)]"
  by (induction d) auto

lemma dict_store_last: "k \<notin> set (map fst d) \<Longrightarrow> dict_store k e (d @ [(k, e')]) = d @ [(k, e)]"
  by (induction d) auto

lemma map_of_dict_store: "map_of (dict_store k e d) k' = (if k' = k then Some e else map_of d k')"
  by (induction d) auto

lemma keys_dict_store:
  "map fst (dict_store k e d) = (if k \<in> set (map fst d) then map fst d else map fst d @ [k])"
  by (induction d) auto

lemma length_dict_delete_less: "k \<in> set (map fst d) \<Longrightarrow> length (dict_delete k d) < length d"
proof -
  assume "k \<in> set (map fst d)"
  then obtain p where "p \<in> set d" "fst p = k" by auto
  then show ?thesis
    unfolding dict_delete_def by (intro length_filter_less [of p]) auto
qed

lemma LRUCache_setitem_eq:
  "LRUCache_setitem c k v now =
     (if k \<in> set (map fst (data c)) then (Inr (), c\<lparr>data := dict_delete k (data c) @ [(k, (v, now))]\<rparr>)
      else if max_size c \<le> int (length (data c)) then
        (case data c of [] \<Rightarrow> (Inl KeyError, c) | p # ps \<Rightarrow> (Inr (), c\<lparr>data := ps @ [(k, (v, now))]\<rparr>))
      else (Inr (), c\<lparr>data := data c @ [(k, (v, now))]\<rparr>))"
proof (cases "k \<in> set (map fst (data c))")
  case True
  then obtain e where e: "map_of (data c) k = Some e"
    by (metis dict_contains_keys dict_contains_def not_None_eq)
  have "k \<notin> set (map fst (dict_delete k (data c)))"
    by (simp add: keys_dict_delete)
  then show ?thesis using True e
    by (simp add: LRUCache_setitem_def dict_contains_keys od_move_to_end_def dict_store_last)
next
  case False
  then show ?thesis
    by (auto simp: LRUCache_setitem_def dict_contains_keys od_popitem_first_def dict_store_absent
        split: list.splits)
qed

lemma LRUCache_getitem_eq:
  "LRUCache_getitem c k now =
     (case map_of (data c) k of
        None \<Rightarrow> (Inl KeyError, c)
      | Some (v, t) \<Rightarrow>
          (if max_size c \<le> int (length (dict_delete k (data c))) then
             (case dict_delete k (data c) of
                [] \<Rightarrow> (Inl KeyError, c\<lparr>data := []\<rparr>)
              | p # ps \<Rightarrow> (Inr v, c\<lparr>data := ps @ [(k, (v, now))]\<rparr>))
           else (Inr v, c\<lparr>data := dict_delete k (data c) @ [(k, (v, now))]\<rparr>)))"
proof (cases "map_of (data c) k")
  case None
  then show ?thesis by (simp add: LRUCache_getitem_def dict_contains_def)
next
  case (Some e)
  obtain v t where e: "e = (v, t)" by (cases e)
  have "k \<notin> set (map fst (dict_delete k (data c)))"
    by (simp add: keys_dict_delete)
  then show ?thesis using Some e
    by (auto simp: LRUCache_getitem_def dict_contains_def dict_pop_def LRUCache_setitem_eq
        split: list.splits)
qed

lemma suffix_removeAll: "suffix xs ys \<Longrightarrow> suffix (removeAll k xs) (removeAll k ys)"
  by (auto simp: suffix_def)

lemma lastn_suffix:
  assumes "suffix xs ys" "length xs = min n (length ys)"
  shows "lastn n ys = xs"
proof -
  from assms(1) obtain zs where ys: "ys = zs @ xs" by (auto simp: suffix_def)
  show ?thesis
  proof (cases "n \<le> length ys")
    case True
    with assms(2) have "length xs = n" by simp
    then show ?thesis by (simp add: lastn_def ys)
  next
    case False
    with assms(2) have "length xs = length ys" by simp
    then have "zs = []" by (simp add: ys)
    then show ?thesis using False by (simp add: lastn_def ys)
  qed
qed

lemma touch_track:
  assumes "distinct ks" "distinct r" "suffix ks r"
  shows "distinct (removeAll k ks @ [k])" "distinct (touch k r)"
    "suffix (removeAll k ks @ [k]) (touch k r)"
  using assms by (auto simp: touch_def suffix_removeAll distinct_removeAll)

lemma touch_track_new:
  assumes "distinct ks" "distinct r" "suffix ks r" "k \<notin> set ks"
  shows "distinct (ks @ [k])" "suffix (ks @ [k]) (touch k r)" "suffix (tl ks @ [k]) (touch k r)"
proof -
  show "distinct (ks @ [k])" using assms by simp
  have "suffix (removeAll k ks) (removeAll k r)" using assms(3) by (rule suffix_removeAll)
  then have s: "suffix ks (removeAll k r)" using assms(4) by simp
  then show "suffix (ks @ [k]) (touch k r)" by (simp add: touch_def)
  have "suffix (tl ks) ks" by (simp add: suffix_tl)
  then have "suffix (tl ks) (removeAll k r)" using s suffix_order.trans by blast
  then show "suffix (tl ks @ [k]) (touch k r)" by (simp add: touch_def)
qed

section \<open>The recency invariant of LRUCache\<close>

lemma LRUCache_getitem_hit:
  assumes "int (length (data c)) \<le> max_size c" "map_of (data c) k = Some (v, t)"
  shows "LRUCache_getitem c k now = (Inr v, c\<lparr>data := dict_delete k (data c) @ [(k, (v, now))]\<rparr>)"
proof -
  have "k \<in> set (map fst (data c))"
    using assms(2) by (metis dict_contains_def dict_contains_keys option.distinct(1))
  then have "length (dict_delete k (data c)) < length (data c)"
    by (rule length_dict_delete_less)
  then have "\<not> max_size c \<le> int (length (dict_delete k (data c)))"
    using assms(1) by linarith
  then show ?thesis using assms(2) by (simp add: LRUCache_getitem_eq)
qed

lemma LRUCache_getitem_miss:
  "k \<notin> set (map fst (data c)) \<Longrightarrow> LRUCache_getitem c k now = (Inl KeyError, c)"
  by (simp add: LRUCache_getitem_def dict_contains_keys)

lemma track_moved:
  assumes "lru_track n c r" "k \<in> set (map fst (data c))"
  shows "lru_track n (c\<lparr>data := dict_delete k (data c) @ [(k, e)]\<rparr>) (touch k r)"
proof -
  have len: "length (dict_delete k (data c)) < length (data c)"
    using assms(2) by (rule length_dict_delete_less)
  have d: "distinct (map fst (data c))" "distinct r" "suffix (map fst (data c)) r"
    using assms(1) by (simp_all add: lru_track_def dict_wf_def)
  note t = touch_track [OF d, of k]
  show ?thesis
    unfolding lru_track_def dict_wf_def
    using assms(1) len t by (simp add: lru_track_def keys_dict_delete)
qed

lemma track_set:
  assumes "0 < n" "lru_track n c r"
  shows "fst (LRUCache_setitem c k v now) = Inr ()"
    and "lru_track n (snd (LRUCache_setitem c k v now)) (touch k r)"
proof -
  have d: "distinct (map fst (data c))" "distinct r" "suffix (map fst (data c)) r"
    and m: "max_size c = n" and l: "int (length (data c)) \<le> n"
    using assms(2) by (simp_all add: lru_track_def dict_wf_def)
  consider (hit) "k \<in> set (map fst (data c))"
    | (full) "k \<notin> set (map fst (data c))" "max_size c \<le> int (length (data c))"
    | (room) "k \<notin> set (map fst (data c))" "\<not> max_size c \<le> int (length (data c))"
    by blast
  then have "fst (LRUCache_setitem c k v now) = Inr () \<and>
      lru_track n (snd (LRUCache_setitem c k v now)) (touch k r)"
  proof cases
    case hit
    then show ?thesis
      using track_moved [OF assms(2) hit, of "(v, now)"] by (simp add: LRUCache_setitem_eq)
  next
    case full
    then obtain p ps where ps: "data c = p # ps"
      using assms(1) m by (cases "data c") auto
    note t = touch_track_new [OF d full(1)]
    have "distinct (tl (map fst (data c)) @ [k])"
      using t(1) by (simp add: ps)
    then show ?thesis
      using full t(3) m l ps d(2)
      by (simp add: LRUCache_setitem_eq lru_track_def dict_wf_def touch_def distinct_removeAll)
  next
    case room
    note t = touch_track_new [OF d room(1)]
    show ?thesis
      using room t(1,2) m l d(2)
      by (simp add: LRUCache_setitem_eq lru_track_def dict_wf_def touch_def distinct_removeAll)
  qed
  then show "fst (LRUCache_setitem c k v now) = Inr ()"
    and "lru_track n (snd (LRUCache_setitem c k v now)) (touch k r)" by simp_all
qed

lemma track_getitem:
  assumes "lru_track n c r"
  shows "lru_track n (snd (LRUCache_getitem c k now))
           (if LRUCache_contains c k then touch k r else r)"
proof (cases "k \<in> set (map fst (data c))")
  case True
  then obtain v t where e: "map_of (data c) k = Some (v, t)"
    by (metis dict_contains_def dict_contains_keys not_None_eq surj_pair)
  have "int (length (data c)) \<le> max_size c"
    using assms by (simp add: lru_track_def)
  from LRUCache_getitem_hit [OF this e] track_moved [OF assms True] True
  show ?thesis by (simp add: LRUCache_contains_def dict_contains_keys)
next
  case False
  then show ?thesis
    using assms by (simp add: LRUCache_getitem_miss LRUCache_contains_def dict_contains_keys)
qed

lemma snd_LRUCache_get: "snd (LRUCache_get c k d now) = snd (LRUCache_getitem c k now)"
  by (simp add: LRUCache_get_def split: prod.splits sum.splits py_error.splits)

lemma track_delitem:
  assumes "lru_track n c r"
  shows "lru_track n (snd (LRUCache_delitem c k))
           (if LRUCache_contains c k then removeAll k r else r)"
proof (cases "k \<in> set (map fst (data c))")
  case True
  have "length (dict_delete k (data c)) < length (data c)"
    using True by (rule length_dict_delete_less)
  then show ?thesis
    using assms True
    by (simp add: LRUCache_delitem_def LRUCache_contains_def dict_contains_keys dict_delitem_def
        lru_track_def dict_wf_def keys_dict_delete suffix_removeAll distinct_removeAll)
next
  case False
  then show ?thesis
    using assms by (simp add: LRUCache_delitem_def LRUCache_contains_def dict_contains_keys)
qed

lemma snd_returning: "snd (returning f r) = snd r"
  by (simp add: returning_def split: prod.splits sum.splits)

lemma lru_track_step:
  assumes "0 < n" "lru_track n c r"
  shows "lru_track n (snd (lru_step c x)) (recency_step c r (fst x))"
proof -
  obtain op now where x: "x = (op, now)" by (cases x)
  show ?thesis
  proof (cases op)
    case (Set k v)
    then show ?thesis using track_set(2) [OF assms] x by (simp add: snd_returning)
  next
    case (GetItem k)
    then show ?thesis using track_getitem [OF assms(2)] x by (simp add: snd_returning)
  next
    case (Get k d)
    then show ?thesis
      using track_getitem [OF assms(2)] x by (simp add: snd_returning snd_LRUCache_get)
  next
    case (Del k)
    then show ?thesis using track_delitem [OF assms(2)] x by (simp add: snd_returning)
  qed
qed

lemma snd_lru_run_Cons: "snd (lru_run c (x # xs)) = snd (lru_run (snd (lru_step c x)) xs)"
  by (simp split: prod.splits)

lemma lru_track_run:
  assumes "0 < n" "lru_track n c r"
  shows "lru_track n (snd (lru_run c xs)) (recently_touched c r xs)"
  using assms(2)
proof (induction xs arbitrary: c r)
  case Nil
  then show ?case by simp
next
  case (Cons x xs)
  from lru_track_step [OF assms(1) Cons.prems, of x]
  have "lru_track n (snd (lru_run (snd (lru_step c x)) xs))
          (recently_touched (snd (lru_step c x)) (recency_step c r (fst x)) xs)"
    by (rule Cons.IH)
  then show ?case by (simp only: snd_lru_run_Cons recently_touched.simps)
qed

lemma length_touch:
  "distinct r \<Longrightarrow> length (touch k r) = (if k \<in> set r then length r else Suc (length r))"
  using length_pos_if_in_set [of k r]
  by (auto simp: touch_def distinct_remove1_removeAll [symmetric] length_remove1)

lemma length_moved:
  assumes "dict_wf d" "k \<in> set (map fst d)"
  shows "length (dict_delete k d @ [(k, e)]) = length d"
proof -
  have "length (map fst (dict_delete k d)) = length (map fst d) - 1"
    using assms unfolding keys_dict_delete dict_wf_def
    by (simp add: distinct_remove1_removeAll [symmetric] length_remove1)
  moreover have "0 < length d" using assms(2) by (cases d) auto
  ultimately show ?thesis by simp
qed

lemma filled_moved:
  assumes "lru_track n c r" "lru_filled n c r" "k \<in> set (map fst (data c))"
  shows "lru_filled n (c\<lparr>data := dict_delete k (data c) @ [(k, e)]\<rparr>) (touch k r)"
proof -
  have d: "dict_wf (data c)" "distinct r" "suffix (map fst (data c)) r"
    using assms(1) by (simp_all add: lru_track_def)
  have "k \<in> set r" using set_mono_suffix [OF d(3)] assms(3) by blast
  then have "length (touch k r) = length r" using d(2) by (simp add: length_touch)
  then show ?thesis
    using assms(2) length_moved [OF d(1) assms(3), of e] by (simp add: lru_filled_def)
qed

lemma filled_set:
  assumes "0 < n" "lru_track n c r" "lru_filled n c r"
  shows "lru_filled n (snd (LRUCache_setitem c k v now)) (touch k r)"
proof -
  have d: "distinct (map fst (data c))" "distinct r" "suffix (map fst (data c)) r"
    and m: "max_size c = n" and l: "int (length (data c)) \<le> n"
    using assms(2) by (simp_all add: lru_track_def dict_wf_def)
  have f: "length (data c) = min (nat n) (length r)"
    using assms(3) by (simp add: lru_filled_def)
  have lt: "length r \<le> length (touch k r)"
    using d(2) by (simp add: length_touch)
  consider (hit) "k \<in> set (map fst (data c))"
    | (full) "k \<notin> set (map fst (data c))" "max_size c \<le> int (length (data c))"
    | (room) "k \<notin> set (map fst (data c))" "\<not> max_size c \<le> int (length (data c))"
    by blast
  then show ?thesis
  proof cases
    case hit
    then show ?thesis
      using filled_moved [OF assms(2,3) hit, of "(v, now)"] by (simp add: LRUCache_setitem_eq)
  next
    case full
    then obtain p ps where ps: "data c = p # ps"
      using assms(1) m by (cases "data c") auto
    have "length (data c) = nat n" using full(2) l m by linarith
    moreover from this f have "nat n \<le> length r" by linarith
    ultimately show ?thesis
      using full lt ps by (simp add: LRUCache_setitem_eq lru_filled_def)
  next
    case room
    then have "length (data c) < nat n" using m by linarith
    with f have lr: "length (data c) = length r" "length r < nat n" by linarith+
    moreover obtain zs where "r = zs @ map fst (data c)"
      using d(3) by (auto simp: suffix_def)
    ultimately have "map fst (data c) = r" by simp
    then have "k \<notin> set r" using room(1) by simp
    then have "length (touch k r) = Suc (length r)" using d(2) by (simp add: length_touch)
    then show ?thesis
      using room lr by (simp add: LRUCache_setitem_eq lru_filled_def)
  qed
qed

lemma filled_getitem:
  assumes "lru_track n c r" "lru_filled n c r"
  shows "lru_filled n (snd (LRUCache_getitem c k now))
           (if LRUCache_contains c k then touch k r else r)"
proof (cases "k \<in> set (map fst (data c))")
  case True
  then obtain v t where e: "map_of (data c) k = Some (v, t)"
    by (metis dict_contains_def dict_contains_keys not_None_eq surj_pair)
  have "int (length (data c)) \<le> max_size c"
    using assms(1) by (simp add: lru_track_def)
  from LRUCache_getitem_hit [OF this e] filled_moved [OF assms True] True
  show ?thesis by (simp add: LRUCache_contains_def dict_contains_keys)
next
  case False
  then show ?thesis
    using assms(2) by (simp add: LRUCache_getitem_miss LRUCache_contains_def dict_contains_keys)
qed

lemma lru_filled_step:
  assumes "0 < n" "lru_track n c r" "lru_filled n c r" "\<not> is_delete (fst x)"
  shows "lru_filled n (snd (lru_step c x)) (recency_step c r (fst x))"
proof -
  obtain op now where x: "x = (op, now)" by (cases x)
  show ?thesis
  proof (cases op)
    case (Set k v)
    then show ?thesis using filled_set [OF assms(1-3)] x by (simp add: snd_returning)
  next
    case (GetItem k)
    then show ?thesis using filled_getitem [OF assms(2,3)] x by (simp add: snd_returning)
  next
    case (Get k d)
    then show ?thesis
      using filled_getitem [OF assms(2,3)] x by (simp add: snd_returning snd_LRUCache_get)
  next
    case (Del k)
    then show ?thesis using assms(4) x by simp
  qed
qed

lemma lru_filled_run:
  assumes "0 < n"
  shows "lru_track n c r \<Longrightarrow> lru_filled n c r \<Longrightarrow> list_all (\<lambda>x. \<not> is_delete (fst x)) xs \<Longrightarrow>
    lru_filled n (snd (lru_run c xs)) (recently_touched c r xs)"
proof (induction xs arbitrary: c r)
  case Nil
  then show ?case by simp
next
  case (Cons x xs)
  have nd: "\<not> is_delete (fst x)" "list_all (\<lambda>x. \<not> is_delete (fst x)) xs"
    using Cons.prems(3) by simp_all
  have "lru_filled n (snd (lru_run (snd (lru_step c x)) xs))
          (recently_touched (snd (lru_step c x)) (recency_step c r (fst x)) xs)"
    using lru_track_step [OF assms Cons.prems(1), of x]
      lru_filled_step [OF assms Cons.prems(1,2) nd(1)] nd(2)
    by (rule Cons.IH)
  then show ?case by (simp only: snd_lru_run_Cons recently_touched.simps)
qed

lemma lru_track_init: "lru_track n \<lparr>max_size = n, data = []\<rparr> [] \<longleftrightarrow> 0 \<le> n"
  by (simp add: lru_track_def dict_wf_def)

text \<open>The equations that evaluate a run on a concrete input.\<close>
lemmas lru_eval = returning_def LRUCache_init_def
  LRUCache_setitem_def LRUCache_getitem_def LRUCache_get_def LRUCache_delitem_def
  LRUCache_contains_def LRUCache_len_def LRUCache_iter_def
  dict_contains_def dict_delete_def dict_getitem_def dict_delitem_def dict_pop_def
  od_move_to_end_def od_popitem_first_def touch_def lastn_def

lemma LRUCache_setitem_total:
  assumes "0 < max_size c"
  shows "fst (LRUCache_setitem c k v now) = Inr ()"
proof (cases "data c")
  case Nil
  then show ?thesis using assms by (simp add: LRUCache_setitem_eq)
next
  case (Cons p ps)
  then show ?thesis by (simp add: LRUCache_setitem_eq)
qed

lemma map_of_appended:
  assumes "k \<notin> set (map fst d)"
  shows "map_of (d @ [(k, e)]) k = Some e"
proof -
  have "map_of d k = None" using assms by (simp add: map_of_eq_None_iff)
  then show ?thesis by (simp add: map_add_def)
qed

lemma map_of_moved: "map_of (dict_delete k d @ [(k, e)]) k = Some e"
  by (rule map_of_appended) (simp add: keys_dict_delete)

lemma LRUCache_setitem_stores:
  assumes "0 < max_size c"
  shows "map_of (data (snd (LRUCache_setitem c k v now))) k = Some (v, now)"
    and "max_size (snd (LRUCache_setitem c k v now)) = max_size c"
proof -
  consider (hit) "k \<in> set (map fst (data c))"
    | (full) "k \<notin> set (map fst (data c))" "max_size c \<le> int (length (data c))"
    | (room) "k \<notin> set (map fst (data c))" "\<not> max_size c \<le> int (length (data c))"
    by blast
  then have "map_of (data (snd (LRUCache_setitem c k v now))) k = Some (v, now) \<and>
     max_size (snd (LRUCache_setitem c k v now)) = max_size c"
  proof cases
    case hit
    then show ?thesis by (simp add: LRUCache_setitem_eq map_of_moved del: map_of_append)
  next
    case full
    then obtain p ps where ps: "data c = p # ps"
      using assms by (cases "data c") auto
    then have "k \<notin> set (map fst ps)" using full(1) by simp
    then show ?thesis using full ps by (simp add: LRUCache_setitem_eq map_of_appended del: map_of_append)
  next
    case room
    then show ?thesis by (simp add: LRUCache_setitem_eq map_of_appended del: map_of_append)
  qed
  then show "map_of (data (snd (LRUCache_setitem c k v now))) k = Some (v, now)"
    and "max_size (snd (LRUCache_setitem c k v now)) = max_size c" by simp_all
qed

lemma LRUCache_getitem_present:
  assumes "0 < max_size c" "map_of (data c) k = Some (v, t)"
  shows "fst (LRUCache_getitem c k now) = Inr v"
proof (cases "dict_delete k (data c)")
  case Nil
  then show ?thesis using assms by (simp add: LRUCache_getitem_eq)
next
  case (Cons p ps)
  then show ?thesis using assms by (simp add: LRUCache_getitem_eq)
qed

lemma fst_LRUCache_get:
  "fst (LRUCache_getitem c k now) = Inr v \<Longrightarrow> fst (LRUCache_get c k d now) = Inr (Some v)"
  by (cases "LRUCache_getitem c k now") (simp add: LRUCache_get_def)

lemma max_size_run:
  assumes "0 < n" "LRUCache_init n = Inr c0"
  shows "max_size (snd (lru_run c0 xs)) = n"
proof -
  have "lru_track n c0 []" using assms by (auto simp: LRUCache_init_def lru_track_init)
  from lru_track_run [OF assms(1) this, of xs] show ?thesis by (simp add: lru_track_def)
qed

lemma LRUCache_setitem_full:
  assumes "0 < max_size c" "k \<notin> set (map fst (data c))" "max_size c \<le> int (length (data c))"
  shows "data c \<noteq> []"
    and "LRUCache_setitem c k v now = (Inr (), c\<lparr>data := tl (data c) @ [(k, (v, now))]\<rparr>)"
proof -
  show ne: "data c \<noteq> []" using assms(1,3) by auto
  then obtain p ps where "data c = p # ps" by (cases "data c") auto
  then show "LRUCache_setitem c k v now = (Inr (), c\<lparr>data := tl (data c) @ [(k, (v, now))]\<rparr>)"
    using assms(2,3) by (simp add: LRUCache_setitem_eq)
qed

lemma lru_promotion_example:
  assumes "a \<noteq> b" "a \<noteq> d" "b \<noteq> d"
  shows "lru_run \<lparr>max_size = 2, data = []\<rparr>
           [(Set a v1, t1), (Set b v2, t2), (GetItem a, t3), (Set d v3, t4)] =
         ([Inr PyNone, Inr PyNone, Inr (PyVal v1), Inr PyNone],
          \<lparr>max_size = 2, data = [(a, (v1, t3)), (d, (v3, t4))]\<rparr>)"
  using assms by (simp add: lru_eval)

lemma lru_eviction_example:
  assumes "a \<noteq> b" "a \<noteq> d" "b \<noteq> d"
  shows "lru_run \<lparr>max_size = 2, data = []\<rparr> [(Set a v1, t1), (Set b v2, t2), (Set d v3, t3)] =
         ([Inr PyNone, Inr PyNone, Inr PyNone],
          \<lparr>max_size = 2, data = [(b, (v2, t2)), (d, (v3, t3))]\<rparr>)"
  using assms by (simp add: lru_eval)

lemma TTLCache_getitem_eq:
  "TTLCache_getitem c k now =
     (case map_of (tdata c) k of
        None \<Rightarrow> (Inl KeyError, c)
      | Some (v, ts) \<Rightarrow>
          if now - ts \<le> ttl c then (Inr v, c)
          else (Inl KeyError, c\<lparr>tdata := dict_delete k (tdata c)\<rparr>))"
  by (simp add: TTLCache_getitem_def dict_contains_def dict_getitem_def dict_delitem_def
      split: option.splits)

lemma TTLCache_contains_eq:
  "TTLCache_contains c k now =
     (case map_of (tdata c) k of
        None \<Rightarrow> (Inr False, c)
      | Some (v, ts) \<Rightarrow>
          if now - ts \<le> ttl c then (Inr True, c)
          else (Inr False, c\<lparr>tdata := dict_delete k (tdata c)\<rparr>))"
  by (simp add: TTLCache_contains_def dict_contains_def dict_getitem_def dict_delitem_def
      split: option.splits)

lemma TTLCache_get_eq:
  "TTLCache_get c k dflt now =
     (case TTLCache_getitem c k now of
        (Inl e, c') \<Rightarrow> (Inr dflt, c')
      | (Inr v, c') \<Rightarrow> (Inr (Some v), c'))"
  by (simp add: TTLCache_get_def split: prod.splits sum.splits py_error.splits)

lemma not_contains_deleted: "\<not> dict_contains k (dict_delete k d)"
  by (simp add: dict_contains_def map_of_dict_delete)

lemma delete_keys_present:
  assumes "distinct ks" "set ks \<subseteq> set (map fst d)"
  shows "delete_keys ks d = (Inr (), filter (\<lambda>p. fst p \<notin> set ks) d)"
  using assms
proof (induction ks arbitrary: d)
  case Nil
  then show ?case by simp
next
  case (Cons k ks)
  have k: "dict_contains k d" using Cons.prems(2) by (simp add: dict_contains_keys)
  have "set ks \<subseteq> set (map fst (dict_delete k d))"
    using Cons.prems by (auto simp: keys_dict_delete)
  with Cons.prems(1) have "delete_keys ks (dict_delete k d) =
      (Inr (), filter (\<lambda>p. fst p \<notin> set ks) (dict_delete k d))"
    by (intro Cons.IH) simp_all
  moreover have "filter (\<lambda>p. fst p \<notin> set ks) (dict_delete k d) =
      filter (\<lambda>p. fst p \<notin> set (k # ks)) d"
    by (auto simp: dict_delete_def intro: filter_cong)
  ultimately show ?case using k by (simp add: dict_delitem_def)
qed

lemma dict_wf_unique:
  assumes "dict_wf d" "p \<in> set d" "q \<in> set d" "fst p = fst q"
  shows "p = q"
proof -
  have "inj_on fst (set d)" using assms(1) by (simp add: dict_wf_def distinct_map)
  then show ?thesis using assms(2-4) by (auto dest: inj_onD)
qed

lemma sweep_filter:
  assumes "dict_wf d"
  shows "filter (\<lambda>p. fst p \<notin> set (map fst (filter P d))) d = filter (\<lambda>p. \<not> P p) d"
proof (rule filter_cong [OF refl])
  fix p assume p: "p \<in> set d"
  show "(fst p \<notin> set (map fst (filter P d))) = (\<not> P p)"
  proof
    assume "fst p \<notin> set (map fst (filter P d))"
    then show "\<not> P p" using p by force
  next
    assume np: "\<not> P p"
    show "fst p \<notin> set (map fst (filter P d))"
    proof
      assume "fst p \<in> set (map fst (filter P d))"
      then obtain q where q: "q \<in> set d" "P q" "fst q = fst p" by auto
      with dict_wf_unique [OF assms p q(1)] np show False by simp
    qed
  qed
qed

lemma expired_not_fresh: "(\<lambda>(k, (_, ts)). now - ts > t) = (\<lambda>p. \<not> fresh t now p)"
  by (auto simp: fresh_def fun_eq_iff)

lemma TTLCache_expire_all_eq:
  assumes "dict_wf (tdata c)"
  shows "TTLCache_expire_all c now =
           (Inr (), c\<lparr>tdata := filter (fresh (ttl c) now) (tdata c)\<rparr>)"
proof -
  let ?P = "\<lambda>p. \<not> fresh (ttl c) now p"
  let ?ks = "map fst (filter ?P (tdata c))"
  have "distinct ?ks"
    using assms by (simp add: dict_wf_def distinct_map_filter)
  moreover have "set ?ks \<subseteq> set (map fst (tdata c))" by auto
  ultimately have "delete_keys ?ks (tdata c) =
      (Inr (), filter (\<lambda>p. fst p \<notin> set ?ks) (tdata c))"
    by (rule delete_keys_present)
  also have "filter (\<lambda>p. fst p \<notin> set ?ks) (tdata c) = filter (\<lambda>p. \<not> ?P p) (tdata c)"
    using assms by (rule sweep_filter)
  finally show ?thesis
    by (simp add: TTLCache_expire_all_def expired_not_fresh)
qed

lemma untimed_keys: "map fst (untimed d) = map fst d"
  by (induction d) (auto simp: untimed_def)

lemma untimed_length: "length (untimed d) = length d"
  by (simp add: untimed_def)

lemma untimed_Nil: "untimed d = [] \<longleftrightarrow> d = []"
  by (simp add: untimed_def)

lemma untimed_append: "untimed (d @ e) = untimed d @ untimed e"
  by (simp add: untimed_def)

lemma untimed_single: "untimed [(k, (v, t))] = [(k, v)]"
  by (simp add: untimed_def)

lemma untimed_tl: "untimed (tl d) = tl (untimed d)"
  by (simp add: untimed_def map_tl)

lemma untimed_dict_delete: "untimed (dict_delete k d) = filter (\<lambda>p. fst p \<noteq> k) (untimed d)"
  by (induction d) (auto simp: untimed_def dict_delete_def)

lemma untimed_map_of: "map_of (untimed d) k = map_option fst (map_of d k)"
  by (induction d) (auto simp: untimed_def)

lemma same_keys:
  assumes "untimed d1 = untimed d2"
  shows "map fst d1 = map fst d2" "length d1 = length d2" "d1 = [] \<longleftrightarrow> d2 = []"
    "map_option fst (map_of d1 k) = map_option fst (map_of d2 k)"
    "untimed (dict_delete k d1) = untimed (dict_delete k d2)"
    "untimed (tl d1) = untimed (tl d2)"
proof -
  show "map fst d1 = map fst d2" using assms untimed_keys by metis
  show "length d1 = length d2" using assms untimed_length by metis
  show "d1 = [] \<longleftrightarrow> d2 = []" using assms untimed_Nil by metis
  show "map_option fst (map_of d1 k) = map_option fst (map_of d2 k)"
    using assms untimed_map_of by metis
  show "untimed (dict_delete k d1) = untimed (dict_delete k d2)"
    using assms by (simp add: untimed_dict_delete)
  show "untimed (tl d1) = untimed (tl d2)" using assms by (simp add: untimed_tl)
qed

lemma LRUCache_setitem_tl:
  "LRUCache_setitem c k v now =
     (if k \<in> set (map fst (data c)) then (Inr (), c\<lparr>data := dict_delete k (data c) @ [(k, (v, now))]\<rparr>)
      else if max_size c \<le> int (length (data c)) then
        (if data c = [] then (Inl KeyError, c)
         else (Inr (), c\<lparr>data := tl (data c) @ [(k, (v, now))]\<rparr>))
      else (Inr (), c\<lparr>data := data c @ [(k, (v, now))]\<rparr>))"
  by (cases "data c") (simp_all add: LRUCache_setitem_eq)

lemma setitem_same:
  assumes "max_size c1 = max_size c2" "untimed (data c1) = untimed (data c2)"
  shows "fst (LRUCache_setitem c1 k v t1) = fst (LRUCache_setitem c2 k v t2) \<and>
         max_size (snd (LRUCache_setitem c1 k v t1)) = max_size (snd (LRUCache_setitem c2 k v t2)) \<and>
         untimed (data (snd (LRUCache_setitem c1 k v t1))) =
           untimed (data (snd (LRUCache_setitem c2 k v t2)))"
proof -
  note s = same_keys [OF assms(2)]
  show ?thesis
    unfolding LRUCache_setitem_tl [of c1] LRUCache_setitem_tl [of c2]
    using assms s(1,2,3) s(5) [of k] s(6)
    by (simp add: untimed_append untimed_single)
qed

lemma getitem_same:
  assumes "max_size c1 = max_size c2" "untimed (data c1) = untimed (data c2)"
  shows "fst (LRUCache_getitem c1 k t1) = fst (LRUCache_getitem c2 k t2) \<and>
         max_size (snd (LRUCache_getitem c1 k t1)) = max_size (snd (LRUCache_getitem c2 k t2)) \<and>
         untimed (data (snd (LRUCache_getitem c1 k t1))) =
           untimed (data (snd (LRUCache_getitem c2 k t2)))"
proof (cases "map_of (data c1) k")
  case None
  then have "map_of (data c2) k = None"
    using same_keys(4) [OF assms(2), of k] by simp
  with None assms show ?thesis by (simp add: LRUCache_getitem_def dict_contains_def)
next
  case (Some e1)
  then obtain e2 where e2: "map_of (data c2) k = Some e2" "fst e1 = fst e2"
    using same_keys(4) [OF assms(2), of k] by (cases "map_of (data c2) k") auto
  let ?d1 = "c1\<lparr>data := dict_delete k (data c1)\<rparr>" and ?d2 = "c2\<lparr>data := dict_delete k (data c2)\<rparr>"
  have "max_size ?d1 = max_size ?d2" "untimed (data ?d1) = untimed (data ?d2)"
    using assms same_keys(5) [OF assms(2), of k] by simp_all
  from setitem_same [OF this, of k "fst e1" t1 t2]
  show ?thesis
    using Some e2
    by (cases e1; cases e2; cases "LRUCache_setitem ?d1 k (fst e1) t1";
        cases "LRUCache_setitem ?d2 k (fst e1) t2")
      (auto simp: LRUCache_getitem_def dict_contains_def dict_pop_def split: sum.splits)
qed

lemma get_same:
  assumes "max_size c1 = max_size c2" "untimed (data c1) = untimed (data c2)"
  shows "fst (LRUCache_get c1 k d t1) = fst (LRUCache_get c2 k d t2) \<and>
         max_size (snd (LRUCache_get c1 k d t1)) = max_size (snd (LRUCache_get c2 k d t2)) \<and>
         untimed (data (snd (LRUCache_get c1 k d t1))) =
           untimed (data (snd (LRUCache_get c2 k d t2)))"
  using getitem_same [OF assms, of k t1 t2]
  by (cases "LRUCache_getitem c1 k t1"; cases "LRUCache_getitem c2 k t2")
    (auto simp: LRUCache_get_def split: sum.splits py_error.splits)

lemma delitem_same:
  assumes "max_size c1 = max_size c2" "untimed (data c1) = untimed (data c2)"
  shows "fst (LRUCache_delitem c1 k) = fst (LRUCache_delitem c2 k) \<and>
         max_size (snd (LRUCache_delitem c1 k)) = max_size (snd (LRUCache_delitem c2 k)) \<and>
         untimed (data (snd (LRUCache_delitem c1 k))) = untimed (data (snd (LRUCache_delitem c2 k)))"
  using assms same_keys(1) [OF assms(2)] same_keys(5) [OF assms(2), of k]
  by (simp add: LRUCache_delitem_def dict_delitem_def dict_contains_keys)

lemma returning_same:
  assumes "fst r1 = fst r2"
  shows "fst (returning f r1) = fst (returning f r2)"
  using assms by (cases r1; cases r2) (auto simp: returning_def split: sum.splits)

lemma step_same:
  assumes "max_size c1 = max_size c2" "untimed (data c1) = untimed (data c2)"
  shows "fst (lru_step c1 (op, t1)) = fst (lru_step c2 (op, t2)) \<and>
         max_size (snd (lru_step c1 (op, t1))) = max_size (snd (lru_step c2 (op, t2))) \<and>
         untimed (data (snd (lru_step c1 (op, t1)))) = untimed (data (snd (lru_step c2 (op, t2))))"
proof (cases op)
  case (Set k v)
  note s = setitem_same [OF assms, of k v t1 t2]
  then have "fst (LRUCache_setitem c1 k v t1) = fst (LRUCache_setitem c2 k v t2)" by simp
  from returning_same [OF this] s Set show ?thesis by (simp add: snd_returning)
next
  case (GetItem k)
  note s = getitem_same [OF assms, of k t1 t2]
  then have "fst (LRUCache_getitem c1 k t1) = fst (LRUCache_getitem c2 k t2)" by simp
  from returning_same [OF this] s GetItem show ?thesis by (simp add: snd_returning)
next
  case (Get k d)
  note s = get_same [OF assms, of k d t1 t2]
  then have "fst (LRUCache_get c1 k d t1) = fst (LRUCache_get c2 k d t2)" by simp
  from returning_same [OF this] s Get show ?thesis by (simp add: snd_returning)
next
  case (Del k)
  note s = delitem_same [OF assms, of k]
  then have "fst (LRUCache_delitem c1 k) = fst (LRUCache_delitem c2 k)" by simp
  from returning_same [OF this] s Del show ?thesis by (simp add: snd_returning)
qed

lemma fst_lru_run_Cons:
  "fst (lru_run c (x # xs)) = fst (lru_step c x) # fst (lru_run (snd (lru_step c x)) xs)"
  by (simp split: prod.splits)

lemma run_same:
  assumes "map fst xs = map fst ys"
  shows "max_size c1 = max_size c2 \<Longrightarrow> untimed (data c1) = untimed (data c2) \<Longrightarrow>
         fst (lru_run c1 xs) = fst (lru_run c2 ys) \<and>
         max_size (snd (lru_run c1 xs)) = max_size (snd (lru_run c2 ys)) \<and>
         untimed (data (snd (lru_run c1 xs))) = untimed (data (snd (lru_run c2 ys)))"
  using assms
proof (induction xs arbitrary: ys c1 c2)
  case Nil
  then show ?case by simp
next
  case (Cons x xs)
  then obtain y ys' where ys: "ys = y # ys'" "fst x = fst y" "map fst xs = map fst ys'"
    by (cases ys) auto
  obtain op t1 where x: "x = (op, t1)" by (cases x)
  with ys(2) obtain t2 where y: "y = (op, t2)" by (cases y) auto
  note st = step_same [OF Cons.prems(1,2), of op t1 t2]
  have "fst (lru_run (snd (lru_step c1 x)) xs) = fst (lru_run (snd (lru_step c2 y)) ys') \<and>
        max_size (snd (lru_run (snd (lru_step c1 x)) xs)) =
          max_size (snd (lru_run (snd (lru_step c2 y)) ys')) \<and>
        untimed (data (snd (lru_run (snd (lru_step c1 x)) xs))) =
          untimed (data (snd (lru_run (snd (lru_step c2 y)) ys')))"
    using st ys(3) unfolding x y by (intro Cons.IH) simp_all
  then show ?case
    using st unfolding ys(1) fst_lru_run_Cons snd_lru_run_Cons x y by simp
qed

lemma render_untimed:
  "map (\<lambda>(k, v). rk k @ '': '' @ rv (fst v)) d =
   map (\<lambda>p. rk (fst p) @ '': '' @ rv (snd p)) (untimed d)"
  unfolding untimed_def map_map
  by (rule map_cong [OF refl]) (simp add: case_prod_unfold)

lemma repr_items_untimed:
  "repr_items rk rv d =
     ''({ '' @ join '', '' (map (\<lambda>p. rk (fst p) @ '': '' @ rv (snd p)) (untimed d)) @ '' })''"
  unfolding repr_items_def render_untimed ..

lemma observers_same:
  assumes "untimed (data c1) = untimed (data c2)"
  shows "LRUCache_len c1 = LRUCache_len c2" "LRUCache_iter c1 = LRUCache_iter c2"
    "LRUCache_contains c1 k = LRUCache_contains c2 k"
    "LRUCache_repr rk rv c1 = LRUCache_repr rk rv c2"
  using assms same_keys(1,2) [OF assms]
  by (simp_all add: LRUCache_len_def LRUCache_iter_def LRUCache_contains_def dict_contains_keys
      LRUCache_repr_def repr_items_untimed)

text \<open>Every call of a \<open>TTLCache\<close> keeps the keys of the store distinct.\<close>
lemma dict_wf_store: "dict_wf d \<Longrightarrow> dict_wf (dict_store k e d)"
  by (simp add: dict_wf_def keys_dict_store)

lemma dict_wf_delete: "dict_wf d \<Longrightarrow> dict_wf (dict_delete k d)"
  by (simp add: dict_wf_def keys_dict_delete distinct_removeAll)

lemma dict_wf_filter: "dict_wf d \<Longrightarrow> dict_wf (filter P d)"
  by (simp add: dict_wf_def distinct_map_filter)

lemma TTLCache_wf:
  assumes "dict_wf (tdata c)"
  shows "dict_wf (tdata (snd (TTLCache_setitem c k v now)))"
    and "dict_wf (tdata (snd (TTLCache_getitem c k now)))"
    and "dict_wf (tdata (snd (TTLCache_get c k dflt now)))"
    and "dict_wf (tdata (snd (TTLCache_delitem c k)))"
    and "dict_wf (tdata (snd (TTLCache_contains c k now)))"
    and "dict_wf (tdata (snd (TTLCache_expire_all c now)))"
proof -
  show "dict_wf (tdata (snd (TTLCache_setitem c k v now)))"
    using assms by (simp add: TTLCache_setitem_def dict_wf_store)
  show g: "dict_wf (tdata (snd (TTLCache_getitem c k now)))"
    using assms by (simp add: TTLCache_getitem_eq dict_wf_delete split: option.splits)
  show "dict_wf (tdata (snd (TTLCache_get c k dflt now)))"
    using g by (cases "TTLCache_getitem c k now") (simp add: TTLCache_get_eq split: sum.splits)
  show "dict_wf (tdata (snd (TTLCache_delitem c k)))"
    using assms by (simp add: TTLCache_delitem_def dict_delitem_def dict_wf_delete)
  show "dict_wf (tdata (snd (TTLCache_contains c k now)))"
    using assms by (simp add: TTLCache_contains_eq dict_wf_delete split: option.splits)
  show "dict_wf (tdata (snd (TTLCache_expire_all c now)))"
    using assms by (simp add: TTLCache_expire_all_eq dict_wf_filter)
qed

lemma TTLCache_init_wf: "TTLCache_init t = Inr c \<Longrightarrow> dict_wf (tdata c)"
  by (auto simp: TTLCache_init_def dict_wf_def)

section \<open>The claims\<close>

text \<open>
  C1 (amended). For an \<open>LRUCache\<close> constructed with \<open>max_size = n > 0\<close> and any sequence of
  \<open>set\<close>, \<open>get\<close> and \<open>delete\<close> calls, with whatever clock readings: afterwards \<open>len\<close> is at
  most \<open>n\<close>; the keys, in iteration order, are the most recent end of the list of the keys
  in use ordered by their last touch; and when the sequence has no \<open>delete\<close> they are exactly
  the last \<open>n\<close> (or all, when fewer) of that list. The statement is about every sequence, so
  it holds after every prefix of one.
\<close>
theorem C1_size_bound_and_recency:
  assumes "0 < n" "LRUCache_init n = Inr c0" "lru_run c0 xs = (rs, c)"
  shows "LRUCache_len c \<le> n \<and>
     suffix (LRUCache_iter c) (recently_touched c0 [] xs) \<and>
     (list_all (\<lambda>x. \<not> is_delete (fst x)) xs \<longrightarrow>
        LRUCache_iter c = lastn (nat n) (recently_touched c0 [] xs))"
proof -
  have c0: "c0 = \<lparr>max_size = n, data = []\<rparr>"
    using assms(2) by (simp add: LRUCache_init_def)
  have c: "c = snd (lru_run c0 xs)" using assms(3) by simp
  have t0: "lru_track n c0 []" using assms(1) by (simp add: c0 lru_track_init)
  have f0: "lru_filled n c0 []" by (simp add: c0 lru_filled_def)
  have t: "lru_track n c (recently_touched c0 [] xs)"
    unfolding c using assms(1) t0 by (rule lru_track_run)
  have "LRUCache_iter c = lastn (nat n) (recently_touched c0 [] xs)"
    if "list_all (\<lambda>x. \<not> is_delete (fst x)) xs"
  proof -
    have "lru_filled n c (recently_touched c0 [] xs)"
      unfolding c using assms(1) t0 f0 that by (rule lru_filled_run)
    then show ?thesis
      using t lastn_suffix [of "map fst (data c)" "recently_touched c0 [] xs" "nat n"]
      by (simp add: lru_filled_def lru_track_def LRUCache_iter_def)
  qed
  then show ?thesis using t by (simp add: lru_track_def LRUCache_len_def LRUCache_iter_def)
qed

theorem C1_witness:
  "(0::int) < 2 \<and>
   LRUCache_init 2 = Inr \<lparr>max_size = 2, data = ([] :: (string, int \<times> real) pydict)\<rparr> \<and>
   lru_run \<lparr>max_size = 2, data = []\<rparr>
     [(Set ''a'' (1::int), 10), (Set ''b'' 2, 11), (GetItem ''a'', 12), (Set ''c'' 3, 13)] =
     ([Inr PyNone, Inr PyNone, Inr (PyVal 1), Inr PyNone],
      \<lparr>max_size = 2, data = [(''a'', 1, 12), (''c'', 3, 13)]\<rparr>) \<and>
   LRUCache_len \<lparr>max_size = 2, data = [(''a'', 1::int, 12), (''c'', 3, 13)]\<rparr> \<le> 2 \<and>
   list_all (\<lambda>x. \<not> is_delete (fst x))
     [(Set ''a'' (1::int), 10::real), (Set ''b'' 2, 11), (GetItem ''a'', 12), (Set ''c'' 3, 13)] \<and>
   LRUCache_iter \<lparr>max_size = 2, data = [(''a'', 1::int, 12), (''c'', 3, 13)]\<rparr> =
     lastn (nat 2) (recently_touched \<lparr>max_size = 2, data = []\<rparr> []
       [(Set ''a'' (1::int), 10), (Set ''b'' 2, 11), (GetItem ''a'', 12), (Set ''c'' 3, 13)])"
proof -
  have run: "lru_run \<lparr>max_size = 2, data = []\<rparr>
     [(Set ''a'' (1::int), 10), (Set ''b'' 2, 11), (GetItem ''a'', 12), (Set ''c'' 3, 13)] =
     ([Inr PyNone, Inr PyNone, Inr (PyVal 1), Inr PyNone],
      \<lparr>max_size = 2, data = [(''a'', 1, 12), (''c'', 3, 13)]\<rparr>)"
    by (simp add: lru_eval)
  have init: "LRUCache_init 2 = Inr \<lparr>max_size = 2, data = ([] :: (string, int \<times> real) pydict)\<rparr>"
    by (simp add: LRUCache_init_def)
  have nd: "list_all (\<lambda>x. \<not> is_delete (fst x))
     [(Set ''a'' (1::int), 10::real), (Set ''b'' 2, 11), (GetItem ''a'', 12), (Set ''c'' 3, 13)]"
    by simp
  from C1_size_bound_and_recency [OF _ init run] nd
  have "LRUCache_len \<lparr>max_size = 2, data = [(''a'', 1::int, 12), (''c'', 3, 13)]\<rparr> \<le> 2 \<and>
    LRUCache_iter \<lparr>max_size = 2, data = [(''a'', 1::int, 12), (''c'', 3, 13)]\<rparr> =
     lastn (nat 2) (recently_touched \<lparr>max_size = 2, data = []\<rparr> []
       [(Set ''a'' (1::int), 10), (Set ''b'' 2, 11), (GetItem ''a'', 12), (Set ''c'' 3, 13)])"
    by simp
  with init run nd show ?thesis by simp
qed

text \<open>
  The claim as stated fails once a \<open>delete\<close> occurs. With capacity 1, after
  \<open>set(a); set(b); delete(b)\<close> no key is live, while the most recently touched key still
  in use is \<open>a\<close> and the most recently touched key is \<open>b\<close>. With capacity 2, after
  \<open>set(a); set(b); set(c); delete(c); set(d)\<close> the live keys are \<open>b, d\<close>, while the two most
  recently touched keys are \<open>c, d\<close>.
\<close>
theorem C1_counterexample:
  "LRUCache_init 1 = Inr \<lparr>max_size = 1, data = ([] :: (string, int \<times> real) pydict)\<rparr> \<and>
   LRUCache_iter (snd (lru_run \<lparr>max_size = 1, data = []\<rparr>
     [(Set ''a'' (1::int), 10), (Set ''b'' 2, 11), (Del ''b'', 12)])) = [] \<and>
   lastn (nat 1) (recently_touched \<lparr>max_size = 1, data = []\<rparr> []
     [(Set ''a'' (1::int), 10), (Set ''b'' 2, 11), (Del ''b'', 12)]) = [''a''] \<and>
   lastn (nat 1) (recently_touched \<lparr>max_size = 1, data = []\<rparr> []
     [(Set ''a'' (1::int), 10), (Set ''b'' 2, 11)]) = [''b''] \<and>
   LRUCache_init 2 = Inr \<lparr>max_size = 2, data = ([] :: (string, int \<times> real) pydict)\<rparr> \<and>
   LRUCache_iter (snd (lru_run \<lparr>max_size = 2, data = []\<rparr>
     [(Set ''a'' (1::int), 10), (Set ''b'' 2, 11), (Set ''c'' 3, 12), (Del ''c'', 13),
      (Set ''d'' 4, 14)])) = [''b'', ''d''] \<and>
   lastn (nat 2) (recently_touched \<lparr>max_size = 2, data = []\<rparr> []
     [(Set ''a'' (1::int), 10), (Set ''b'' 2, 11), (Set ''c'' 3, 12), (Set ''d'' 4, 14)]) =
     [''c'', ''d'']"
  by (simp add: lru_eval)

text \<open>
  C8 (amended). On an \<open>LRUCache\<close> constructed with \<open>max_size = n > 0\<close>, after any sequence
  of calls, \<open>set\<close> returns for every key and value and every clock reading: it never
  raises.
\<close>
theorem C8_set_total:
  assumes "0 < n" "LRUCache_init n = Inr c0"
  shows "fst (LRUCache_setitem (snd (lru_run c0 xs)) k v now) = Inr ()"
  using max_size_run [OF assms, of xs] assms(1) by (simp add: LRUCache_setitem_total)

theorem C8_witness:
  "(0::int) < 1 \<and>
   LRUCache_init 1 = Inr \<lparr>max_size = 1, data = ([] :: (string, int \<times> real) pydict)\<rparr> \<and>
   fst (LRUCache_setitem
     (snd (lru_run \<lparr>max_size = 1, data = []\<rparr> [(Set ''a'' (1::int), 10), (Del ''a'', 11)]))
     ''b'' 2 12) = Inr ()"
proof -
  have init: "LRUCache_init 1 = Inr \<lparr>max_size = 1, data = ([] :: (string, int \<times> real) pydict)\<rparr>"
    by (simp add: LRUCache_init_def)
  from C8_set_total [OF _ init, of "[(Set ''a'' (1::int), 10), (Del ''a'', 11)]" "''b''" 2 12] init
  show ?thesis by simp
qed

text \<open>
  The constructor accepts \<open>max_size = 0\<close>, and on that cache the first \<open>set\<close> raises
  \<open>KeyError\<close>: the cache is empty, \<open>len(self.data) >= self.max_size\<close> holds, and
  \<open>popitem(last=False)\<close> is called on the empty dictionary.
\<close>
theorem C8_counterexample:
  "LRUCache_init 0 = Inr \<lparr>max_size = 0, data = ([] :: (string, int \<times> real) pydict)\<rparr> \<and>
   LRUCache_setitem \<lparr>max_size = 0, data = []\<rparr> ''a'' (1::int) 10 =
     (Inl KeyError, \<lparr>max_size = 0, data = []\<rparr>)"
  by (simp add: lru_eval)

text \<open>
  C3 (amended). Both constructors return for every parameter, positive or not: the result
  is an empty cache that holds the parameter as given. Neither checks its argument.
\<close>
theorem C3_constructors_accept_any_parameter:
  "(LRUCache_init n :: py_error + ('k, 'v) LRUCache) = Inr \<lparr>max_size = n, data = []\<rparr> \<and>
   (TTLCache_init t :: py_error + ('k, 'v) TTLCache) = Inr \<lparr>ttl = t, tdata = []\<rparr>"
  by (simp add: LRUCache_init_def TTLCache_init_def)

text \<open>
  No constructor fails on a non-positive parameter: \<open>LRUCache(0)\<close>, \<open>LRUCache(-1)\<close>,
  \<open>TTLCache(0)\<close> and \<open>TTLCache(-1)\<close> are caches, \<open>len\<close> of the first is 0, and a
  \<open>TTLCache(0)\<close> returns a value read at the clock reading it was stored at.
\<close>
theorem C3_counterexample:
  "LRUCache_init 0 = Inr \<lparr>max_size = 0, data = ([] :: (string, int \<times> real) pydict)\<rparr> \<and>
   LRUCache_init (- 1) = Inr \<lparr>max_size = - 1, data = ([] :: (string, int \<times> real) pydict)\<rparr> \<and>
   LRUCache_len \<lparr>max_size = 0, data = ([] :: (string, int \<times> real) pydict)\<rparr> = 0 \<and>
   TTLCache_init 0 = Inr \<lparr>ttl = 0, tdata = ([] :: (string, int \<times> real) pydict)\<rparr> \<and>
   TTLCache_init (- 1) = Inr \<lparr>ttl = - 1, tdata = ([] :: (string, int \<times> real) pydict)\<rparr> \<and>
   fst (TTLCache_getitem (snd (TTLCache_setitem \<lparr>ttl = 0, tdata = []\<rparr> ''a'' (1::int) 5)) ''a'' 5)
     = Inr 1"
  by (simp add: LRUCache_init_def TTLCache_init_def LRUCache_len_def TTLCache_getitem_def
      TTLCache_setitem_def dict_contains_def dict_getitem_def)

text \<open>
  C4. On an \<open>LRUCache\<close> with \<open>max_size > 0\<close> that holds at most \<open>max_size\<close> entries:
  \<open>set\<close> on a present key returns, stores the new value (and the clock reading) and moves
  the entry to the end, every other entry staying where it is (nothing is evicted);
  \<open>set\<close> on a new key when \<open>len \<ge> max_size\<close> drops the first entry (the dictionary is
  not empty) and appends the new one; \<open>set\<close> on a new key below capacity only appends;
  \<open>get\<close> on a present key returns its value and moves the entry to the end. With
  capacity 2 and three different keys \<open>a\<close>, \<open>b\<close>, \<open>d\<close>, whatever the values and clock
  readings, \<open>set(a); set(b); get(a); set(d)\<close> leaves the keys \<open>a, d\<close> and
  \<open>set(a); set(b); set(d)\<close> leaves \<open>b, d\<close>.
\<close>
theorem C4_lru_eviction:
  assumes "0 < max_size c" "LRUCache_len c \<le> max_size c" "a \<noteq> b" "a \<noteq> d" "b \<noteq> d"
  shows "(LRUCache_contains c k \<longrightarrow>
            LRUCache_setitem c k v now =
              (Inr (), c\<lparr>data := dict_delete k (data c) @ [(k, (v, now))]\<rparr>)) \<and>
         (\<not> LRUCache_contains c k \<and> max_size c \<le> LRUCache_len c \<longrightarrow>
            data c \<noteq> [] \<and>
            LRUCache_setitem c k v now = (Inr (), c\<lparr>data := tl (data c) @ [(k, (v, now))]\<rparr>)) \<and>
         (\<not> LRUCache_contains c k \<and> LRUCache_len c < max_size c \<longrightarrow>
            LRUCache_setitem c k v now = (Inr (), c\<lparr>data := data c @ [(k, (v, now))]\<rparr>)) \<and>
         (map_of (data c) k = Some (w, t) \<longrightarrow>
            LRUCache_getitem c k now =
              (Inr w, c\<lparr>data := dict_delete k (data c) @ [(k, (w, now))]\<rparr>)) \<and>
         LRUCache_iter (snd (lru_run \<lparr>max_size = 2, data = []\<rparr>
            [(Set a v1, t1), (Set b v2, t2), (GetItem a, t3), (Set d v3, t4)])) = [a, d] \<and>
         LRUCache_iter (snd (lru_run \<lparr>max_size = 2, data = []\<rparr>
            [(Set a v1, t1), (Set b v2, t2), (Set d v3, t3)])) = [b, d]"
proof -
  have hit: "LRUCache_setitem c k v now =
      (Inr (), c\<lparr>data := dict_delete k (data c) @ [(k, (v, now))]\<rparr>)"
    if "LRUCache_contains c k"
    using that by (simp add: LRUCache_setitem_eq LRUCache_contains_def dict_contains_keys)
  have full: "data c \<noteq> [] \<and>
      LRUCache_setitem c k v now = (Inr (), c\<lparr>data := tl (data c) @ [(k, (v, now))]\<rparr>)"
    if "\<not> LRUCache_contains c k \<and> max_size c \<le> LRUCache_len c"
    using that LRUCache_setitem_full(1) [OF assms(1), of k]
      LRUCache_setitem_full(2) [OF assms(1), of k v now]
    by (simp add: LRUCache_contains_def dict_contains_keys LRUCache_len_def)
  have room: "LRUCache_setitem c k v now = (Inr (), c\<lparr>data := data c @ [(k, (v, now))]\<rparr>)"
    if "\<not> LRUCache_contains c k \<and> LRUCache_len c < max_size c"
    using that
    by (simp add: LRUCache_setitem_eq LRUCache_contains_def dict_contains_keys LRUCache_len_def)
  have get: "LRUCache_getitem c k now =
      (Inr w, c\<lparr>data := dict_delete k (data c) @ [(k, (w, now))]\<rparr>)"
    if "map_of (data c) k = Some (w, t)"
    using assms(2) that by (intro LRUCache_getitem_hit) (simp_all add: LRUCache_len_def)
  have ex1: "LRUCache_iter (snd (lru_run \<lparr>max_size = 2, data = []\<rparr>
            [(Set a v1, t1), (Set b v2, t2), (GetItem a, t3), (Set d v3, t4)])) = [a, d]"
    by (simp only: lru_promotion_example [OF assms(3-5)]) (simp add: LRUCache_iter_def)
  have ex2: "LRUCache_iter (snd (lru_run \<lparr>max_size = 2, data = []\<rparr>
            [(Set a v1, t1), (Set b v2, t2), (Set d v3, t3)])) = [b, d]"
    by (simp only: lru_eviction_example [OF assms(3-5)]) (simp add: LRUCache_iter_def)
  from hit full room get ex1 ex2 show ?thesis by blast
qed

theorem C4_witness:
  "(0::int) < max_size \<lparr>max_size = 2, data = [(''a'', 1::int, 10), (''b'', 2, 11)]\<rparr> \<and>
   LRUCache_len \<lparr>max_size = 2, data = [(''a'', 1::int, 10), (''b'', 2, 11)]\<rparr> \<le> 2 \<and>
   ''a'' \<noteq> ''b'' \<and> ''a'' \<noteq> ''c'' \<and> ''b'' \<noteq> ''c'' \<and>
   LRUCache_contains \<lparr>max_size = 2, data = [(''a'', 1::int, 10), (''b'', 2, 11)]\<rparr> ''a'' \<and>
   LRUCache_setitem \<lparr>max_size = 2, data = [(''a'', 1::int, 10), (''b'', 2, 11)]\<rparr> ''a'' 7 12 =
     (Inr (), \<lparr>max_size = 2, data = [(''b'', 2, 11), (''a'', 7, 12)]\<rparr>) \<and>
   \<not> LRUCache_contains \<lparr>max_size = 2, data = [(''a'', 1::int, 10), (''b'', 2, 11)]\<rparr> ''c'' \<and>
   LRUCache_setitem \<lparr>max_size = 2, data = [(''a'', 1::int, 10), (''b'', 2, 11)]\<rparr> ''c'' 3 12 =
     (Inr (), \<lparr>max_size = 2, data = [(''b'', 2, 11), (''c'', 3, 12)]\<rparr>) \<and>
   \<not> LRUCache_contains \<lparr>max_size = 2, data = [(''a'', 1::int, 10)]\<rparr> ''b'' \<and>
   LRUCache_len \<lparr>max_size = 2, data = [(''a'', 1::int, 10)]\<rparr> < 2 \<and>
   LRUCache_setitem \<lparr>max_size = 2, data = [(''a'', 1::int, 10)]\<rparr> ''b'' 2 11 =
     (Inr (), \<lparr>max_size = 2, data = [(''a'', 1, 10), (''b'', 2, 11)]\<rparr>) \<and>
   map_of [(''a'', 1::int, 10::real), (''b'', 2, 11)] ''a'' = Some (1, 10) \<and>
   LRUCache_getitem \<lparr>max_size = 2, data = [(''a'', 1::int, 10), (''b'', 2, 11)]\<rparr> ''a'' 12 =
     (Inr 1, \<lparr>max_size = 2, data = [(''b'', 2, 11), (''a'', 1, 12)]\<rparr>) \<and>
   LRUCache_iter (snd (lru_run \<lparr>max_size = 2, data = []\<rparr>
     [(Set ''a'' (1::int), 10), (Set ''b'' 2, 11), (GetItem ''a'', 12), (Set ''c'' 3, 13)])) =
     [''a'', ''c''] \<and>
   LRUCache_iter (snd (lru_run \<lparr>max_size = 2, data = []\<rparr>
     [(Set ''a'' (1::int), 10), (Set ''b'' 2, 11), (Set ''c'' 3, 12)])) = [''b'', ''c'']"
proof -
  let ?c = "\<lparr>max_size = 2, data = [(''a'', 1::int, 10::real), (''b'', 2, 11)]\<rparr>"
  let ?c1 = "\<lparr>max_size = 2, data = [(''a'', 1::int, 10::real)]\<rparr>"
  have h: "(0::int) < max_size ?c" "LRUCache_len ?c \<le> max_size ?c"
    "(0::int) < max_size ?c1" "LRUCache_len ?c1 \<le> max_size ?c1"
    "''a'' \<noteq> ''b''" "''a'' \<noteq> ''c''" "''b'' \<noteq> ''c''"
    by (simp_all add: LRUCache_len_def)
  note on_a = C4_lru_eviction [OF h(1,2,5,6,7), where k = "''a''" and v = 7 and now = 12
      and w = 1 and t = 10 and ?v1.0 = "1::int" and ?v2.0 = 2 and ?v3.0 = 3
      and ?t1.0 = 10 and ?t2.0 = 11 and ?t3.0 = 12 and ?t4.0 = 13]
  note on_c = C4_lru_eviction [OF h(1,2,5,6,7), where k = "''c''" and v = 3 and now = 12
      and w = 1 and t = 10 and ?v1.0 = "1::int" and ?v2.0 = 2 and ?v3.0 = 3
      and ?t1.0 = 10 and ?t2.0 = 11 and ?t3.0 = 12 and ?t4.0 = 13]
  note on_b = C4_lru_eviction [OF h(3,4,5,6,7), where k = "''b''" and v = 2 and now = 11
      and w = 1 and t = 10 and ?v1.0 = "1::int" and ?v2.0 = 2 and ?v3.0 = 3
      and ?t1.0 = 10 and ?t2.0 = 11 and ?t3.0 = 12 and ?t4.0 = 13]
  have p: "LRUCache_contains ?c ''a''" "\<not> LRUCache_contains ?c ''c''"
    "max_size ?c \<le> LRUCache_len ?c" "\<not> LRUCache_contains ?c1 ''b''"
    "LRUCache_len ?c1 < max_size ?c1" "map_of (data ?c) ''a'' = Some (1, 10)"
    by (simp_all add: LRUCache_contains_def LRUCache_len_def dict_contains_def)
  from on_a on_c on_b p h show ?thesis
    by (simp add: dict_delete_def)
qed

text \<open>
  C9. Round trip. On an \<open>LRUCache\<close> with \<open>max_size > 0\<close> (so that the key just stored is
  not evicted by its own store), in any state, \<open>set(k, v)\<close> returns and the \<open>get(k)\<close> that
  follows returns \<open>v\<close>, at any clock readings. On a \<open>TTLCache\<close> in any state, \<open>set(k, v)\<close>
  at \<open>now\<close> followed by \<open>get(k)\<close> at \<open>now'\<close> returns \<open>v\<close> when the entry has not expired
  in between, \<open>now' - now \<le> ttl\<close>. The same holds for the variants of \<open>get\<close> that take a
  default.
\<close>
theorem C9_round_trip:
  assumes "0 < max_size c" "now' - now \<le> ttl tc"
  shows "fst (LRUCache_setitem c k v now) = Inr () \<and>
         fst (LRUCache_getitem (snd (LRUCache_setitem c k v now)) k now1) = Inr v \<and>
         fst (LRUCache_get (snd (LRUCache_setitem c k v now)) k dflt now1) = Inr (Some v) \<and>
         fst (TTLCache_setitem tc k v now) = Inr () \<and>
         fst (TTLCache_getitem (snd (TTLCache_setitem tc k v now)) k now') = Inr v \<and>
         fst (TTLCache_get (snd (TTLCache_setitem tc k v now)) k dflt now') = Inr (Some v)"
proof -
  note s = LRUCache_setitem_stores [OF assms(1), of k v now]
  have g: "fst (LRUCache_getitem (snd (LRUCache_setitem c k v now)) k now1) = Inr v"
    using s(2) assms(1) by (intro LRUCache_getitem_present [OF _ s(1)]) simp
  have t: "fst (TTLCache_getitem (snd (TTLCache_setitem tc k v now)) k now') = Inr v"
    using assms(2)
    by (simp add: TTLCache_getitem_def TTLCache_setitem_def dict_contains_def dict_getitem_def
        map_of_dict_store)
  then have "fst (TTLCache_get (snd (TTLCache_setitem tc k v now)) k dflt now') = Inr (Some v)"
    by (cases "TTLCache_getitem (snd (TTLCache_setitem tc k v now)) k now'")
      (simp add: TTLCache_get_def)
  with g t fst_LRUCache_get [OF g] LRUCache_setitem_total [OF assms(1)]
  show ?thesis by (simp add: TTLCache_setitem_def)
qed

theorem C9_witness:
  "(0::int) < max_size \<lparr>max_size = 1, data = [(''a'', 1::int, 10)]\<rparr> \<and>
   (9::real) - 4 \<le> ttl \<lparr>ttl = 5, tdata = [(''a'', 1::int, 0)]\<rparr> \<and>
   fst (LRUCache_setitem \<lparr>max_size = 1, data = [(''a'', 1::int, 10)]\<rparr> ''b'' 2 4) = Inr () \<and>
   fst (LRUCache_getitem
     (snd (LRUCache_setitem \<lparr>max_size = 1, data = [(''a'', 1::int, 10)]\<rparr> ''b'' 2 4)) ''b'' 12) =
     Inr 2 \<and>
   fst (TTLCache_getitem
     (snd (TTLCache_setitem \<lparr>ttl = 5, tdata = [(''a'', 1::int, 0)]\<rparr> ''b'' 2 4)) ''b'' 9) = Inr 2"
proof -
  have h: "(0::int) < max_size \<lparr>max_size = 1, data = [(''a'', 1::int, 10::real)]\<rparr>"
    "(9::real) - 4 \<le> ttl \<lparr>ttl = 5, tdata = [(''a'', 1::int, 0::real)]\<rparr>"
    by simp_all
  from C9_round_trip [OF h, where k = "''b''" and v = 2 and ?now1.0 = 12 and dflt = None] h show ?thesis
    by simp
qed

text \<open>
  C2. \<open>TTLCache.__getitem__\<close> at clock reading \<open>now\<close> returns \<open>v\<close> exactly when the store
  holds \<open>(v, ts)\<close> under the key with \<open>now - ts \<le> ttl\<close>; then the state is unchanged. When
  the key is present with \<open>now - ts > ttl\<close> the entry is removed (the key is then absent
  from the store) and the call raises \<open>KeyError\<close>; when the key is absent the call raises
  \<open>KeyError\<close> and the state is unchanged. \<open>get\<close> returns the value in the first case and
  its default in the other two, with the same effect on the state. So no value whose age
  exceeds \<open>ttl\<close> is returned.
\<close>
theorem C2_ttl_get:
  "(fst (TTLCache_getitem c k now) = Inr v \<longleftrightarrow>
      (\<exists>ts. map_of (tdata c) k = Some (v, ts) \<and> now - ts \<le> ttl c)) \<and>
   (map_of (tdata c) k = Some (v, ts) \<and> now - ts \<le> ttl c \<longrightarrow>
      TTLCache_getitem c k now = (Inr v, c) \<and>
      TTLCache_get c k dflt now = (Inr (Some v), c)) \<and>
   (map_of (tdata c) k = Some (v, ts) \<and> \<not> now - ts \<le> ttl c \<longrightarrow>
      TTLCache_getitem c k now = (Inl KeyError, c\<lparr>tdata := dict_delete k (tdata c)\<rparr>) \<and>
      TTLCache_get c k dflt now = (Inr dflt, c\<lparr>tdata := dict_delete k (tdata c)\<rparr>) \<and>
      \<not> dict_contains k (dict_delete k (tdata c))) \<and>
   (map_of (tdata c) k = None \<longrightarrow>
      TTLCache_getitem c k now = (Inl KeyError, c) \<and>
      TTLCache_get c k dflt now = (Inr dflt, c))"
proof -
  have ret: "fst (TTLCache_getitem c k now) = Inr v \<longleftrightarrow>
      (\<exists>ts. map_of (tdata c) k = Some (v, ts) \<and> now - ts \<le> ttl c)"
    by (auto simp: TTLCache_getitem_eq split: option.splits)
  have fresh: "TTLCache_getitem c k now = (Inr v, c) \<and>
      TTLCache_get c k dflt now = (Inr (Some v), c)"
    if "map_of (tdata c) k = Some (v, ts) \<and> now - ts \<le> ttl c"
    using that by (simp add: TTLCache_get_eq TTLCache_getitem_eq)
  have stale: "TTLCache_getitem c k now = (Inl KeyError, c\<lparr>tdata := dict_delete k (tdata c)\<rparr>) \<and>
      TTLCache_get c k dflt now = (Inr dflt, c\<lparr>tdata := dict_delete k (tdata c)\<rparr>) \<and>
      \<not> dict_contains k (dict_delete k (tdata c))"
    if "map_of (tdata c) k = Some (v, ts) \<and> \<not> now - ts \<le> ttl c"
    using that by (simp add: TTLCache_get_eq TTLCache_getitem_eq not_contains_deleted)
  have absent: "TTLCache_getitem c k now = (Inl KeyError, c) \<and>
      TTLCache_get c k dflt now = (Inr dflt, c)"
    if "map_of (tdata c) k = None"
    using that by (simp add: TTLCache_get_eq TTLCache_getitem_eq)
  from ret fresh stale absent show ?thesis by blast
qed

theorem C2_witness:
  "map_of (tdata \<lparr>ttl = 5, tdata = [(''a'', 1::int, 0), (''b'', 2, 3)]\<rparr>) ''b'' = Some (2, 3) \<and>
   (7::real) - 3 \<le> ttl \<lparr>ttl = 5, tdata = [(''a'', 1::int, 0), (''b'', 2, 3)]\<rparr> \<and>
   TTLCache_getitem \<lparr>ttl = 5, tdata = [(''a'', 1::int, 0), (''b'', 2, 3)]\<rparr> ''b'' 7 =
     (Inr 2, \<lparr>ttl = 5, tdata = [(''a'', 1, 0), (''b'', 2, 3)]\<rparr>) \<and>
   map_of (tdata \<lparr>ttl = 5, tdata = [(''a'', 1::int, 0), (''b'', 2, 3)]\<rparr>) ''a'' = Some (1, 0) \<and>
   \<not> (7::real) - 0 \<le> ttl \<lparr>ttl = 5, tdata = [(''a'', 1::int, 0), (''b'', 2, 3)]\<rparr> \<and>
   TTLCache_getitem \<lparr>ttl = 5, tdata = [(''a'', 1::int, 0), (''b'', 2, 3)]\<rparr> ''a'' 7 =
     (Inl KeyError, \<lparr>ttl = 5, tdata = [(''b'', 2, 3)]\<rparr>) \<and>
   map_of (tdata \<lparr>ttl = 5, tdata = [(''a'', 1::int, 0), (''b'', 2, 3)]\<rparr>) ''z'' = None \<and>
   TTLCache_getitem \<lparr>ttl = 5, tdata = [(''a'', 1::int, 0), (''b'', 2, 3)]\<rparr> ''z'' 7 =
     (Inl KeyError, \<lparr>ttl = 5, tdata = [(''a'', 1, 0), (''b'', 2, 3)]\<rparr>)"
proof -
  let ?c = "\<lparr>ttl = 5, tdata = [(''a'', 1::int, 0::real), (''b'', 2, 3)]\<rparr>"
  have p: "map_of (tdata ?c) ''b'' = Some (2, 3)" "(7::real) - 3 \<le> ttl ?c"
    "map_of (tdata ?c) ''a'' = Some (1, 0)" "\<not> (7::real) - 0 \<le> ttl ?c"
    "map_of (tdata ?c) ''z'' = None"
    by simp_all
  from C2_ttl_get [where c = ?c and k = "''b''" and now = 7 and v = 2 and ts = 3 and dflt = None]
    C2_ttl_get [where c = ?c and k = "''a''" and now = 7 and v = 1 and ts = 0 and dflt = None]
    C2_ttl_get [where c = ?c and k = "''z''" and now = 7 and v = 1 and ts = 0 and dflt = None]
    p
  show ?thesis by (simp add: dict_delete_def)
qed

text \<open>
  C6. \<open>TTLCache.__setitem__\<close> returns and stores \<open>(v, now)\<close> under the key: the value is
  overwritten and the timestamp is the current clock reading, whatever the old one was;
  other keys keep their entries, a present key keeps its position, and \<open>ttl\<close> is unchanged.
  After \<open>set(k, v1)\<close> at \<open>t1\<close> and \<open>set(k, v2)\<close> at \<open>t2\<close>, \<open>get(k)\<close> at \<open>t3\<close> returns
  \<open>v2\<close> exactly when \<open>t3 - t2 \<le> ttl\<close>: the window is measured from the second \<open>set\<close>, and
  \<open>t1\<close> plays no role.
\<close>
theorem C6_ttl_set_refreshes:
  "TTLCache_setitem c k v now = (Inr (), c\<lparr>tdata := dict_store k (v, now) (tdata c)\<rparr>) \<and>
   map_of (tdata (snd (TTLCache_setitem c k v now))) k = Some (v, now) \<and>
   (k' \<noteq> k \<longrightarrow> map_of (tdata (snd (TTLCache_setitem c k v now))) k' = map_of (tdata c) k') \<and>
   map fst (tdata (snd (TTLCache_setitem c k v now))) =
     (if dict_contains k (tdata c) then map fst (tdata c) else map fst (tdata c) @ [k]) \<and>
   ttl (snd (TTLCache_setitem c k v now)) = ttl c \<and>
   (fst (TTLCache_getitem
          (snd (TTLCache_setitem (snd (TTLCache_setitem c k v1 t1)) k v2 t2)) k t3) = Inr v2
      \<longleftrightarrow> t3 - t2 \<le> ttl c)"
  by (simp add: TTLCache_setitem_def TTLCache_getitem_eq map_of_dict_store keys_dict_store
      dict_contains_keys)

theorem C6_witness:
  "fst (TTLCache_getitem
     (snd (TTLCache_setitem (snd (TTLCache_setitem \<lparr>ttl = 5, tdata = []\<rparr> ''a'' (1::int) 0))
        ''a'' 2 4)) ''a'' 9) = Inr 2 \<and>
   (9::real) - 4 \<le> ttl \<lparr>ttl = 5, tdata = ([] :: (string, int \<times> real) pydict)\<rparr> \<and>
   \<not> (9::real) - 0 \<le> ttl \<lparr>ttl = 5, tdata = ([] :: (string, int \<times> real) pydict)\<rparr> \<and>
   map_of (tdata (snd (TTLCache_setitem
     (snd (TTLCache_setitem \<lparr>ttl = 5, tdata = []\<rparr> ''a'' (1::int) 0)) ''a'' 2 4))) ''a'' =
     Some (2, 4)"
  using C6_ttl_set_refreshes [where c = "\<lparr>ttl = 5, tdata = ([] :: (string, int \<times> real) pydict)\<rparr>"
      and k = "''a''" and ?v1.0 = 1 and ?t1.0 = 0 and ?v2.0 = 2 and ?t2.0 = 4 and ?t3.0 = 9
      and v = 1 and now = 0 and k' = "''b''"]
    C6_ttl_set_refreshes [where c = "snd (TTLCache_setitem
        \<lparr>ttl = 5, tdata = ([] :: (string, int \<times> real) pydict)\<rparr> ''a'' 1 0)"
      and k = "''a''" and v = 2 and now = 4 and k' = "''b''"
      and ?v1.0 = 1 and ?t1.0 = 0 and ?v2.0 = 2 and ?t2.0 = 4 and ?t3.0 = 9]
  by (simp add: TTLCache_setitem_def)

text \<open>
  C7. \<open>TTLCache.__delitem__\<close> does not read the clock. It returns exactly when the key is
  in the store and raises \<open>KeyError\<close> exactly when it is not (the state is then unchanged).
  When the store holds an entry under the key, whatever its timestamp, the entry is
  removed, the other keys keep theirs, and \<open>__contains__\<close> on the key afterwards returns
  \<open>False\<close> at every clock reading.
\<close>
theorem C7_ttl_delete:
  "(fst (TTLCache_delitem c k) = Inr () \<longleftrightarrow> dict_contains k (tdata c)) \<and>
   (fst (TTLCache_delitem c k) = Inl KeyError \<longleftrightarrow> \<not> dict_contains k (tdata c)) \<and>
   (map_of (tdata c) k = Some (v, ts) \<longrightarrow>
      TTLCache_delitem c k = (Inr (), c\<lparr>tdata := dict_delete k (tdata c)\<rparr>) \<and>
      TTLCache_contains (snd (TTLCache_delitem c k)) k now =
        (Inr False, snd (TTLCache_delitem c k)) \<and>
      \<not> dict_contains k (tdata (snd (TTLCache_delitem c k)))) \<and>
   (\<not> dict_contains k (tdata c) \<longrightarrow> TTLCache_delitem c k = (Inl KeyError, c)) \<and>
   (k' \<noteq> k \<longrightarrow> map_of (tdata (snd (TTLCache_delitem c k))) k' = map_of (tdata c) k')"
  by (auto simp: TTLCache_delitem_def dict_delitem_def TTLCache_contains_eq dict_contains_def
      map_of_dict_delete)

theorem C7_witness:
  "map_of (tdata \<lparr>ttl = 5, tdata = [(''a'', 1::int, 0), (''b'', 2, 3)]\<rparr>) ''a'' = Some (1, 0) \<and>
   \<not> (100::real) - 0 \<le> ttl \<lparr>ttl = 5, tdata = [(''a'', 1::int, 0), (''b'', 2, 3)]\<rparr> \<and>
   TTLCache_delitem \<lparr>ttl = 5, tdata = [(''a'', 1::int, 0), (''b'', 2, 3)]\<rparr> ''a'' =
     (Inr (), \<lparr>ttl = 5, tdata = [(''b'', 2, 3)]\<rparr>) \<and>
   TTLCache_contains \<lparr>ttl = 5, tdata = [(''b'', 2::int, 3)]\<rparr> ''a'' 100 =
     (Inr False, \<lparr>ttl = 5, tdata = [(''b'', 2, 3)]\<rparr>) \<and>
   \<not> dict_contains ''z'' (tdata \<lparr>ttl = 5, tdata = [(''a'', 1::int, 0), (''b'', 2, 3)]\<rparr>) \<and>
   TTLCache_delitem \<lparr>ttl = 5, tdata = [(''a'', 1::int, 0), (''b'', 2, 3)]\<rparr> ''z'' =
     (Inl KeyError, \<lparr>ttl = 5, tdata = [(''a'', 1, 0), (''b'', 2, 3)]\<rparr>)"
proof -
  let ?c = "\<lparr>ttl = 5, tdata = [(''a'', 1::int, 0::real), (''b'', 2, 3)]\<rparr>"
  have p: "map_of (tdata ?c) ''a'' = Some (1, 0)" "\<not> dict_contains ''z'' (tdata ?c)"
    by (simp_all add: dict_contains_def)
  from C7_ttl_delete [where c = ?c and k = "''a''" and v = 1 and ts = 0 and now = 100
      and k' = "''b''"]
    C7_ttl_delete [where c = ?c and k = "''z''" and v = 1 and ts = 0 and now = 100
      and k' = "''b''"] p
  show ?thesis
    by (simp add: dict_delete_def dict_contains_def TTLCache_delitem_def dict_delitem_def
        TTLCache_contains_eq)
qed

text \<open>
  C5. On a \<open>TTLCache\<close> whose store is a dictionary (no key twice), \<open>_expire_all\<close> at the
  clock reading \<open>now\<close> returns and leaves exactly the entries with \<open>now - timestamp \<le> ttl\<close>,
  unchanged and in their order: every entry with \<open>now - timestamp > ttl\<close> is removed, and
  all entries are judged against the one reading. \<open>__len__\<close> returns the number of those
  entries, \<open>__iter__\<close> their keys and \<open>__repr__\<close> their rendering, each leaving the swept
  store.
\<close>
theorem C5_ttl_sweep:
  assumes "dict_wf (tdata c)"
  shows "TTLCache_expire_all c now =
           (Inr (), c\<lparr>tdata := filter (fresh (ttl c) now) (tdata c)\<rparr>) \<and>
         TTLCache_len c now =
           (Inr (int (length (filter (fresh (ttl c) now) (tdata c)))),
            c\<lparr>tdata := filter (fresh (ttl c) now) (tdata c)\<rparr>) \<and>
         TTLCache_iter c now =
           (Inr (map fst (filter (fresh (ttl c) now) (tdata c))),
            c\<lparr>tdata := filter (fresh (ttl c) now) (tdata c)\<rparr>) \<and>
         TTLCache_repr repr_k repr_v c now =
           (Inr (''TTLCache'' @ repr_items repr_k repr_v (filter (fresh (ttl c) now) (tdata c))),
            c\<lparr>tdata := filter (fresh (ttl c) now) (tdata c)\<rparr>)"
  by (simp add: TTLCache_len_def TTLCache_iter_def TTLCache_repr_def
      TTLCache_expire_all_eq [OF assms])

theorem C5_witness:
  "dict_wf (tdata \<lparr>ttl = 5, tdata = [(''a'', 1::int, 0), (''b'', 2, 3), (''c'', 3, 1), (''d'', 4, 2)]\<rparr>) \<and>
   TTLCache_len \<lparr>ttl = 5, tdata = [(''a'', 1::int, 0), (''b'', 2, 3), (''c'', 3, 1), (''d'', 4, 2)]\<rparr> 7 =
     (Inr 2, \<lparr>ttl = 5, tdata = [(''b'', 2, 3), (''d'', 4, 2)]\<rparr>) \<and>
   TTLCache_iter \<lparr>ttl = 5, tdata = [(''a'', 1::int, 0), (''b'', 2, 3), (''c'', 3, 1), (''d'', 4, 2)]\<rparr> 7 =
     (Inr [''b'', ''d''], \<lparr>ttl = 5, tdata = [(''b'', 2, 3), (''d'', 4, 2)]\<rparr>) \<and>
   TTLCache_repr (\<lambda>k. k) (\<lambda>v. if v = 2 then ''2'' else ''4'')
     \<lparr>ttl = 5, tdata = [(''a'', 1::int, 0), (''b'', 2, 3), (''c'', 3, 1), (''d'', 4, 2)]\<rparr> 7 =
     (Inr ''TTLCache({ b: 2, d: 4 })'', \<lparr>ttl = 5, tdata = [(''b'', 2, 3), (''d'', 4, 2)]\<rparr>)"
proof -
  let ?c = "\<lparr>ttl = 5, tdata = [(''a'', 1::int, 0::real), (''b'', 2, 3), (''c'', 3, 1), (''d'', 4, 2)]\<rparr>"
  have wf: "dict_wf (tdata ?c)" by (simp add: dict_wf_def)
  from C5_ttl_sweep [OF wf, where now = 7 and repr_k = "\<lambda>k. k"
      and repr_v = "\<lambda>v. if v = 2 then ''2'' else ''4''"] wf
  show ?thesis by (simp add: fresh_def repr_items_def)
qed

text \<open>
  C10. Two \<open>LRUCache\<close>s with the same \<open>max_size\<close> and the same keys and values in the same
  order (two fresh caches, for instance; their timestamps may differ) that run the same
  sequence of calls under any two sequences of clock readings return the same outcomes,
  call by call (values, \<open>KeyError\<close>s, defaults), and afterwards agree on \<open>len\<close>, on the
  iteration order, on \<open>in\<close> for every key, on \<open>repr\<close>, and on the keys and values they
  hold: no call reads a timestamp.
\<close>
theorem C10_lru_clock_independent:
  assumes "max_size c1 = max_size c2" "untimed (data c1) = untimed (data c2)"
    "map fst xs = map fst ys"
  shows "fst (lru_run c1 xs) = fst (lru_run c2 ys) \<and>
         LRUCache_len (snd (lru_run c1 xs)) = LRUCache_len (snd (lru_run c2 ys)) \<and>
         LRUCache_iter (snd (lru_run c1 xs)) = LRUCache_iter (snd (lru_run c2 ys)) \<and>
         LRUCache_contains (snd (lru_run c1 xs)) k = LRUCache_contains (snd (lru_run c2 ys)) k \<and>
         LRUCache_repr rk rv (snd (lru_run c1 xs)) = LRUCache_repr rk rv (snd (lru_run c2 ys)) \<and>
         untimed (data (snd (lru_run c1 xs))) = untimed (data (snd (lru_run c2 ys)))"
proof -
  note r = run_same [OF assms(3,1,2)]
  then have u: "untimed (data (snd (lru_run c1 xs))) = untimed (data (snd (lru_run c2 ys)))"
    by simp
  from r observers_same(1,2) [OF u] observers_same(3) [OF u, of k]
    observers_same(4) [OF u, of rk rv]
  show ?thesis by simp
qed

theorem C10_witness:
  "max_size \<lparr>max_size = 2, data = ([] :: (string, int \<times> real) pydict)\<rparr> =
     max_size \<lparr>max_size = 2, data = ([] :: (string, int \<times> real) pydict)\<rparr> \<and>
   map fst [(Set ''a'' (1::int), 10::real), (Set ''b'' 2, 11), (GetItem ''a'', 12),
            (Set ''c'' 3, 13), (Get ''b'' None, 14), (Del ''z'', 15)] =
   map fst [(Set ''a'' (1::int), 500::real), (Set ''b'' 2, 400), (GetItem ''a'', 300),
            (Set ''c'' 3, 200), (Get ''b'' None, 100), (Del ''z'', 0)] \<and>
   fst (lru_run \<lparr>max_size = 2, data = []\<rparr>
     [(Set ''a'' (1::int), 10), (Set ''b'' 2, 11), (GetItem ''a'', 12),
      (Set ''c'' 3, 13), (Get ''b'' None, 14), (Del ''z'', 15)]) =
   fst (lru_run \<lparr>max_size = 2, data = []\<rparr>
     [(Set ''a'' (1::int), 500), (Set ''b'' 2, 400), (GetItem ''a'', 300),
      (Set ''c'' 3, 200), (Get ''b'' None, 100), (Del ''z'', 0)]) \<and>
   LRUCache_iter (snd (lru_run \<lparr>max_size = 2, data = []\<rparr>
     [(Set ''a'' (1::int), 10), (Set ''b'' 2, 11), (GetItem ''a'', 12),
      (Set ''c'' 3, 13), (Get ''b'' None, 14), (Del ''z'', 15)])) =
   LRUCache_iter (snd (lru_run \<lparr>max_size = 2, data = []\<rparr>
     [(Set ''a'' (1::int), 500), (Set ''b'' 2, 400), (GetItem ''a'', 300),
      (Set ''c'' 3, 200), (Get ''b'' None, 100), (Del ''z'', 0)])) \<and>
   snd (lru_run \<lparr>max_size = 2, data = []\<rparr>
     [(Set ''a'' (1::int), 10), (Set ''b'' 2, 11), (GetItem ''a'', 12),
      (Set ''c'' 3, 13), (Get ''b'' None, 14), (Del ''z'', 15)]) =
     \<lparr>max_size = 2, data = [(''a'', 1, 12), (''c'', 3, 13)]\<rparr> \<and>
   snd (lru_run \<lparr>max_size = 2, data = []\<rparr>
     [(Set ''a'' (1::int), 500), (Set ''b'' 2, 400), (GetItem ''a'', 300),
      (Set ''c'' 3, 200), (Get ''b'' None, 100), (Del ''z'', 0)]) =
     \<lparr>max_size = 2, data = [(''a'', 1, 300), (''c'', 3, 200)]\<rparr>"
proof -
  let ?c = "\<lparr>max_size = 2, data = ([] :: (string, int \<times> real) pydict)\<rparr>"
  let ?xs = "[(Set ''a'' (1::int), 10::real), (Set ''b'' 2, 11), (GetItem ''a'', 12),
            (Set ''c'' 3, 13), (Get ''b'' None, 14), (Del ''z'', 15)]"
  let ?ys = "[(Set ''a'' (1::int), 500::real), (Set ''b'' 2, 400), (GetItem ''a'', 300),
            (Set ''c'' 3, 200), (Get ''b'' None, 100), (Del ''z'', 0)]"
  have h: "max_size ?c = max_size ?c" "untimed (data ?c) = untimed (data ?c)"
    "map fst ?xs = map fst ?ys"
    by simp_all
  have r: "snd (lru_run ?c ?xs) = \<lparr>max_size = 2, data = [(''a'', 1, 12), (''c'', 3, 13)]\<rparr>"
    "snd (lru_run ?c ?ys) = \<lparr>max_size = 2, data = [(''a'', 1, 300), (''c'', 3, 200)]\<rparr>"
    by (simp_all add: lru_eval)
  from C10_lru_clock_independent [OF h, where k = "''a''" and rk = "\<lambda>k. k" and rv = "\<lambda>v. ''v''"]
  have "fst (lru_run ?c ?xs) = fst (lru_run ?c ?ys) \<and>
    LRUCache_iter (snd (lru_run ?c ?xs)) = LRUCache_iter (snd (lru_run ?c ?ys))"
    by blast
  with h(3) r show ?thesis by simp
qed

end
